theory Spec2Isabelle
  imports Complex_Main
begin

section \<open>Interface record (class NetworkInterface)\<close>

text \<open>
  One record per selected interface object. The three request counters start at 0 and are
  only ever incremented by one, so they are naturals; \<open>active_connections\<close> is decremented
  with \<open>max(0, \<dots>)\<close> and is therefore an integer. Wall-clock instants (\<open>time.time()\<close>)
  and the running mean, floats in the source, are reals. The status is the string the
  source stores. Log output, and \<open>get_success_rate\<close>, which only feeds it, are left out.
\<close>

record NetworkInterface =
  name :: string
  ip :: string
  active_connections :: int
  last_used :: int
  bytes_sent :: int
  bytes_received :: int
  total_requests :: nat
  successful_requests :: nat
  failed_requests :: nat
  last_failure :: "real option"
  avg_response_time :: real
  status :: string

definition NetworkInterface_init :: "string \<Rightarrow> string \<Rightarrow> NetworkInterface" where
  "NetworkInterface_init n a =
     \<lparr>name = n, ip = a, active_connections = 0, last_used = 0, bytes_sent = 0,
      bytes_received = 0, total_requests = 0, successful_requests = 0, failed_requests = 0,
      last_failure = None, avg_response_time = 0, status = ''ACTIVE''\<rparr>"

definition update_stats :: "NetworkInterface \<Rightarrow> int \<Rightarrow> real \<Rightarrow> NetworkInterface" where
  "update_stats s bytes_transferred response_time =
     (let s1 = s\<lparr>bytes_sent := bytes_sent s + bytes_transferred\<rparr>;
          s2 = s1\<lparr>total_requests := total_requests s1 + 1\<rparr>
      in s2\<lparr>avg_response_time :=
              (avg_response_time s2 * real (total_requests s2 - 1) + response_time)
                / real (total_requests s2)\<rparr>)"

definition mark_request_success :: "NetworkInterface \<Rightarrow> NetworkInterface" where
  "mark_request_success s =
     s\<lparr>total_requests := total_requests s + 1,
       successful_requests := successful_requests s + 1\<rparr>"

definition mark_request_failed :: "NetworkInterface \<Rightarrow> NetworkInterface" where
  "mark_request_failed s =
     s\<lparr>total_requests := total_requests s + 1,
       failed_requests := failed_requests s + 1\<rparr>"

text \<open>The teardown statement of \<open>handle_client\<close>:
  \<open>interface.active_connections = max(0, interface.active_connections - 1)\<close>.\<close>

definition release_connection :: "NetworkInterface \<Rightarrow> NetworkInterface" where
  "release_connection s = s\<lparr>active_connections := max 0 (active_connections s - 1)\<rparr>"

section \<open>Health and selection engine (class LoadBalancer)\<close>

text \<open>
  The interface objects live in the list \<open>interfaces\<close>; a reference to one of them is its
  position in that list (the source never puts the same object in the list twice: a single
  NIC is entered as two separate objects with equal name and ip). The two dictionaries are
  maps keyed by the ip string. The thresholds are set once in \<open>__init__\<close> and never
  assigned again.
\<close>

record LoadBalancer =
  interfaces :: "NetworkInterface list"
  current_interface_index :: int
  failed_interfaces :: "string \<rightharpoonup> real"
  consecutive_failures :: "string \<rightharpoonup> int"
  last_stats_report :: real

definition failure_timeout :: real where
  "failure_timeout = 5"

definition max_consecutive_failures :: int where
  "max_consecutive_failures = 3"

definition stats_interval :: real where
  "stats_interval = 30"

definition LoadBalancer_init :: "NetworkInterface list \<Rightarrow> LoadBalancer" where
  "LoadBalancer_init ifs =
     \<lparr>interfaces = ifs, current_interface_index = 0, failed_interfaces = Map.empty,
      consecutive_failures = Map.empty, last_stats_report = 0\<rparr>"

datatype error = RuntimeError string

text \<open>\<open>str.startswith\<close>.\<close>

definition startswith :: "string \<Rightarrow> string \<Rightarrow> bool" where
  "startswith s p = (take (length p) s = p)"

text \<open>
  \<open>mark_interface_failed(interface, error)\<close>. The error text only goes to the log. The two
  calls of \<open>time.time()\<close> are the readings \<open>t1\<close> (last failure) and \<open>t2\<close> (quarantine entry).
\<close>

definition mark_interface_failed :: "LoadBalancer \<Rightarrow> nat \<Rightarrow> real \<Rightarrow> real \<Rightarrow> LoadBalancer" where
  "mark_interface_failed lb i t1 t2 =
     (let ifc = (mark_request_failed (interfaces lb ! i))\<lparr>last_failure := Some t1\<rparr>;
          a = ip ifc;
          n = (case consecutive_failures lb a of None \<Rightarrow> 0 | Some c \<Rightarrow> c) + 1
      in if n \<ge> max_consecutive_failures
         then lb\<lparr>interfaces := (interfaces lb)[i := ifc\<lparr>status := ''FAILED''\<rparr>],
                 failed_interfaces := (failed_interfaces lb)(a \<mapsto> t2),
                 consecutive_failures := (consecutive_failures lb)(a \<mapsto> 0)\<rparr>
         else lb\<lparr>interfaces := (interfaces lb)[i := ifc\<lparr>status := ''DEGRADED''\<rparr>],
                 consecutive_failures := (consecutive_failures lb)(a \<mapsto> n)\<rparr>)"

text \<open>
  \<open>is_interface_failed(interface)\<close>: \<open>now\<close> is the reading of \<open>time.time()\<close>, taken only
  when the ip is in the dictionary. A stale entry is deleted.
\<close>

definition is_interface_failed :: "LoadBalancer \<Rightarrow> NetworkInterface \<Rightarrow> real \<Rightarrow> bool \<times> LoadBalancer" where
  "is_interface_failed lb interface now =
     (case failed_interfaces lb (ip interface) of
        Some t \<Rightarrow>
          if now - t > failure_timeout
          then (False, lb\<lparr>failed_interfaces := (failed_interfaces lb)(ip interface := None)\<rparr>)
          else (True, lb)
      | None \<Rightarrow> (False, lb))"

text \<open>The list comprehension of \<open>get_best_interface\<close>: the positions of the interfaces
  whose ip does not start with \<open>169.254.\<close>, in order.\<close>

definition valid_interfaces :: "LoadBalancer \<Rightarrow> nat list" where
  "valid_interfaces lb =
     filter (\<lambda>i. \<not> startswith (ip (interfaces lb ! i)) ''169.254.'') [0..<length (interfaces lb)]"

text \<open>
  The \<open>for _ in range(len(valid_interfaces))\<close> loop, with \<open>n\<close> iterations left. \<open>clk 0\<close> is
  the clock reading of this iteration, \<open>clk 1\<close> that of the next. \<open>None\<close> is falling out of
  the loop.
\<close>

fun round_robin :: "nat list \<Rightarrow> (nat \<Rightarrow> real) \<Rightarrow> nat \<Rightarrow> LoadBalancer \<Rightarrow> nat option \<times> LoadBalancer" where
  "round_robin valid clk 0 lb = (None, lb)"
| "round_robin valid clk (Suc n) lb =
     (let interface = valid ! nat (current_interface_index lb mod int (length valid));
          lb1 = lb\<lparr>current_interface_index :=
                     (current_interface_index lb + 1) mod int (length valid)\<rparr>;
          (failed, lb2) = is_interface_failed lb1 (interfaces lb1 ! interface) (clk 0)
      in if \<not> failed then (Some interface, lb2)
         else round_robin valid (\<lambda>k. clk (Suc k)) n lb2)"

definition get_best_interface :: "LoadBalancer \<Rightarrow> (nat \<Rightarrow> real) \<Rightarrow> error + nat \<times> LoadBalancer" where
  "get_best_interface lb clk =
     (if interfaces lb = [] then Inl (RuntimeError ''No interfaces available'')
      else let valid = valid_interfaces lb in
        if valid = [] then Inl (RuntimeError ''No valid interfaces available. Please select interfaces with valid IP addresses.'')
        else case round_robin valid clk (length valid) lb of
               (Some i, lb') \<Rightarrow> Inr (i, lb')
             | (None, lb') \<Rightarrow>
                 Inr (valid ! 0, lb'\<lparr>failed_interfaces := Map.empty,
                                     consecutive_failures := Map.empty\<rparr>))"

text \<open>\<open>report_stats()\<close>: the report itself is log output; the state keeps the instant of
  the last report. \<open>current_time\<close> is the reading of \<open>time.time()\<close>.\<close>

definition report_stats :: "LoadBalancer \<Rightarrow> real \<Rightarrow> LoadBalancer" where
  "report_stats lb current_time =
     (if current_time - last_stats_report lb \<ge> stats_interval
      then lb\<lparr>last_stats_report := current_time\<rparr> else lb)"

subsection \<open>Consecutive selections and the atomic operations of the engine\<close>

text \<open>\<open>n\<close> calls of \<open>get_best_interface\<close> in a row with nothing in between; \<open>clks j\<close> is the
  clock of the \<open>j\<close>-th call. The result lists the interfaces returned, in order.\<close>

fun select_n :: "LoadBalancer \<Rightarrow> (nat \<Rightarrow> nat \<Rightarrow> real) \<Rightarrow> nat \<Rightarrow> error + nat list \<times> LoadBalancer" where
  "select_n lb clks 0 = Inr ([], lb)"
| "select_n lb clks (Suc n) =
     (case get_best_interface lb (clks 0) of
        Inl e \<Rightarrow> Inl e
      | Inr (i, lb1) \<Rightarrow>
          (case select_n lb1 (\<lambda>j. clks (Suc j)) n of
             Inl e \<Rightarrow> Inl e
           | Inr (sel, lb2) \<Rightarrow> Inr (i # sel, lb2)))"

text \<open>
  Sessions are coroutines on one event loop: between two \<open>await\<close>s a session runs alone.
  The statements that touch the shared engine or an interface object are therefore the
  atomic operations below, and every execution of the server is some sequence of them
  (the interface they act on is one of the list, the one the session was given).
\<close>

datatype engine_op =
    Select "nat \<Rightarrow> real"
  | MarkFailed nat real real
  | UpdateStats nat int real
  | MarkSuccess nat
  | ReportStats real
  | Release nat

fun apply_op :: "LoadBalancer \<Rightarrow> engine_op \<Rightarrow> LoadBalancer" where
  "apply_op lb (Select clk) =
     (case get_best_interface lb clk of Inl e \<Rightarrow> lb | Inr (i, lb') \<Rightarrow> lb')"
| "apply_op lb (MarkFailed i t1 t2) =
     (if i < length (interfaces lb) then mark_interface_failed lb i t1 t2 else lb)"
| "apply_op lb (UpdateStats i b r) =
     (if i < length (interfaces lb)
      then lb\<lparr>interfaces := (interfaces lb)[i := update_stats (interfaces lb ! i) b r]\<rparr> else lb)"
| "apply_op lb (MarkSuccess i) =
     (if i < length (interfaces lb)
      then lb\<lparr>interfaces := (interfaces lb)[i := mark_request_success (interfaces lb ! i)]\<rparr>
      else lb)"
| "apply_op lb (ReportStats t) = report_stats lb t"
| "apply_op lb (Release i) =
     (if i < length (interfaces lb)
      then lb\<lparr>interfaces := (interfaces lb)[i := release_connection (interfaces lb ! i)]\<rparr>
      else lb)"

definition run_ops :: "LoadBalancer \<Rightarrow> engine_op list \<Rightarrow> LoadBalancer" where
  "run_ops lb ops = foldl apply_op lb ops"

text \<open>The invariant of the interface record stated in the data model.\<close>

definition iface_inv :: "NetworkInterface \<Rightarrow> bool" where
  "iface_inv s \<longleftrightarrow>
     successful_requests s + failed_requests s \<le> total_requests s
     \<and> 0 \<le> active_connections s
     \<and> status s \<in> {''ACTIVE'', ''DEGRADED'', ''FAILED''}"

subsection \<open>Example configurations\<close>

definition iface_A :: NetworkInterface where
  "iface_A = NetworkInterface_init ''eth0'' ''10.0.0.2''"

definition iface_B :: NetworkInterface where
  "iface_B = NetworkInterface_init ''wlan0'' ''10.0.0.3''"

definition lb_AB :: LoadBalancer where
  "lb_AB = LoadBalancer_init [iface_A, iface_B]"

definition lb_AB_quarantined :: LoadBalancer where
  "lb_AB_quarantined =
     lb_AB\<lparr>failed_interfaces := [''10.0.0.2'' \<mapsto> 100, ''10.0.0.3'' \<mapsto> 101],
           consecutive_failures := [''10.0.0.2'' \<mapsto> 0, ''10.0.0.3'' \<mapsto> 0]\<rparr>"

definition lb_AB_two_failures :: LoadBalancer where
  "lb_AB_two_failures = lb_AB\<lparr>consecutive_failures := [''10.0.0.2'' \<mapsto> 2]\<rparr>"

definition lb_A_quarantined :: LoadBalancer where
  "lb_A_quarantined = lb_AB\<lparr>failed_interfaces := [''10.0.0.2'' \<mapsto> 100]\<rparr>"

text \<open>The first interface in quarantine since 100 with the cursor on the second one; the
  same with the second interface in quarantine since 198; two constant clocks.\<close>

definition lb_A_stale_cursor_B :: LoadBalancer where
  "lb_A_stale_cursor_B = lb_A_quarantined\<lparr>current_interface_index := 1\<rparr>"

definition lb_A_stale_B_recent :: LoadBalancer where
  "lb_A_stale_B_recent =
     lb_AB\<lparr>current_interface_index := 1,
           failed_interfaces := [''10.0.0.2'' \<mapsto> 100, ''10.0.0.3'' \<mapsto> 198]\<rparr>"

definition clock_200 :: "nat \<Rightarrow> real" where
  "clock_200 k = 200"

definition clock_105 :: "nat \<Rightarrow> real" where
  "clock_105 k = 105"

section \<open>Request head parser\<close>

text \<open>
  The decoded request text is a \<open>string\<close>: characters are the code points below 256. The
  string methods the parser uses are modelled as CPython computes them on such text.
  \<open>isspace\<close> is \<open>str.isspace\<close> on that range, \<open>strip\<close> is \<open>str.strip()\<close>.
\<close>

definition isspace :: "char \<Rightarrow> bool" where
  "isspace c \<longleftrightarrow>
     c \<in> set [CHR 0x09, CHR 0x0A, CHR 0x0B, CHR 0x0C, CHR 0x0D, CHR 0x1C, CHR 0x1D, CHR 0x1E,
              CHR 0x1F, CHR 0x20, CHR 0x85, CHR 0xA0]"

definition strip :: "string \<Rightarrow> string" where
  "strip s = rev (dropWhile isspace (rev (dropWhile isspace s)))"

text \<open>\<open>s.split(sep)\<close> for a one-character separator: every occurrence of the separator
  ends a part, so the result has one part more than there are separators, and parts may
  be empty.\<close>

fun split_where :: "(char \<Rightarrow> bool) \<Rightarrow> string \<Rightarrow> string list" where
  "split_where P [] = [[]]"
| "split_where P (c # cs) =
     (if P c then [] # split_where P cs
      else case split_where P cs of
             [] \<Rightarrow> [[c]]
           | p # ps \<Rightarrow> (c # p) # ps)"

definition split :: "string \<Rightarrow> char \<Rightarrow> string list" where
  "split s sep = split_where (\<lambda>c. c = sep) s"

text \<open>\<open>s.find(sub, start)\<close>: the lowest position at or after \<open>start\<close> where \<open>sub\<close> begins, or
  \<open>-1\<close>. \<open>find_at\<close> scans the rest of the text, \<open>i\<close> being the position of its head.\<close>

fun find_at :: "string \<Rightarrow> string \<Rightarrow> nat \<Rightarrow> int" where
  "find_at [] sub i = (if sub = [] then int i else - 1)"
| "find_at (c # cs) sub i =
     (if startswith (c # cs) sub then int i else find_at cs sub (Suc i))"

definition find_from :: "string \<Rightarrow> string \<Rightarrow> nat \<Rightarrow> int" where
  "find_from s sub start = (if start > length s then - 1 else find_at (drop start s) sub start)"

text \<open>\<open>s[a:b]\<close>: a negative bound counts from the end, and both bounds are clamped.\<close>

definition slice :: "string \<Rightarrow> int \<Rightarrow> int \<Rightarrow> string" where
  "slice s a b =
     (let n = int (length s);
          lo = (if a < 0 then max 0 (n + a) else min a n);
          hi = (if b < 0 then max 0 (n + b) else min b n)
      in take (nat (hi - lo)) (drop (nat lo) s))"

text \<open>
  \<open>int(s)\<close> on such text: surrounding white space is dropped (the interpreter accepts
  tab, LF, VT, FF, CR, space, NEL and NBSP here, not the separators 0x1C to 0x1F), then an
  optional sign, then decimal digits with single underscores between digits; more than
  \<open>int_max_str_digits\<close> digits (the interpreter's default) are refused. \<open>None\<close> is
  \<open>ValueError\<close>.
\<close>

definition isdigit :: "char \<Rightarrow> bool" where
  "isdigit c \<longleftrightarrow> c \<in> set ''0123456789''"

definition digit_value :: "char \<Rightarrow> nat" where
  "digit_value c = of_char c - 48"

fun digits_tail :: "nat \<Rightarrow> string \<Rightarrow> nat option" where
  "digits_tail acc [] = Some acc"
| "digits_tail acc (c # cs) =
     (if isdigit c then digits_tail (10 * acc + digit_value c) cs
      else if c = CHR ''_'' then
        (case cs of
           [] \<Rightarrow> None
         | d # ds \<Rightarrow> if isdigit d then digits_tail (10 * acc + digit_value d) ds else None)
      else None)"

definition int_max_str_digits :: nat where
  "int_max_str_digits = 4300"

definition digits :: "string \<Rightarrow> nat option" where
  "digits s =
     (case s of
        [] \<Rightarrow> None
      | c # cs \<Rightarrow>
          if \<not> isdigit c then None
          else case digits_tail (digit_value c) cs of
                 None \<Rightarrow> None
               | Some n \<Rightarrow> if length (filter isdigit s) > int_max_str_digits then None
                           else Some n)"

definition int_space :: "char \<Rightarrow> bool" where
  "int_space c \<longleftrightarrow>
     c \<in> set [CHR 0x09, CHR 0x0A, CHR 0x0B, CHR 0x0C, CHR 0x0D, CHR 0x20, CHR 0x85, CHR 0xA0]"

definition py_int :: "string \<Rightarrow> int option" where
  "py_int s =
     (case rev (dropWhile int_space (rev (dropWhile int_space s))) of
        [] \<Rightarrow> None
      | c # cs \<Rightarrow>
          if c = CHR ''-'' then map_option (\<lambda>n. - int n) (digits cs)
          else if c = CHR ''+'' then map_option int (digits cs)
          else map_option int (digits (c # cs)))"

text \<open>
  The parsing steps of \<open>handle_client\<close>, from \<open>first_line = \<dots>\<close> to the end of the
  \<open>try\<close> block that sets \<open>host\<close> and \<open>port\<close>. \<open>None\<close> is either of the two early returns
  (\<open>ValueError\<close> of the unpacking, any exception of the host and port extraction); the
  result is \<open>(method, host, port)\<close>. \<open>urllib.parse.urlparse\<close> is a parameter: it gives
  \<open>netloc\<close> and the \<open>port\<close> attribute of the parsed URL, or \<open>None\<close> where either raises.
\<close>

definition CRLF :: string where
  "CRLF = [CHR 0x0D, CHR 0x0A]"

definition parse_request ::
  "(string \<Rightarrow> (string \<times> int option) option) \<Rightarrow> string \<Rightarrow> (string \<times> string \<times> int) option" where
  "parse_request urlparse request_text =
     (case split request_text (CHR 0x0A) of
        [] \<Rightarrow> None
      | line # _ \<Rightarrow>
          (case split (strip line) CHR '' '' of
             [method, url, protocol] \<Rightarrow>
               if method = ''CONNECT'' then
                 (case split url CHR '':'' of
                    [host, port] \<Rightarrow> map_option (\<lambda>p. (method, host, p)) (py_int port)
                  | _ \<Rightarrow> None)
               else
                 let host_start = find_from request_text ''Host: '' 0 + 6 in
                 if host_start > 5 then
                   let host_end = find_from request_text CRLF (nat host_start)
                   in Some (method, strip (slice request_text host_start host_end), 80)
                 else
                   (case urlparse url of
                      None \<Rightarrow> None
                    | Some (netloc, explicit_port) \<Rightarrow>
                        Some (method, netloc,
                              (case explicit_port of
                                 Some p \<Rightarrow> if p \<noteq> 0 then p
                                           else if startswith url ''https'' then 443 else 80
                               | None \<Rightarrow> if startswith url ''https'' then 443 else 80)))
           | _ \<Rightarrow> None))"

text \<open>The reading of the specification: the tokens of a line separated by runs of white
  space (what \<open>str.split()\<close> without argument gives).\<close>

definition whitespace_tokens :: "string \<Rightarrow> string list" where
  "whitespace_tokens s = filter (\<lambda>w. w \<noteq> []) (split_where isspace s)"

text \<open>The first line of the text, as \<open>split('\n')[0]\<close> gives it.\<close>

definition raw_first_line :: "string \<Rightarrow> string" where
  "raw_first_line s = takeWhile (\<lambda>c. c \<noteq> CHR 0x0A) s"

text \<open>An \<open>urlparse\<close> that raises on every URL, for the requests that never reach it.\<close>

definition urlparse_raises :: "string \<Rightarrow> (string \<times> int option) option" where
  "urlparse_raises u = None"

subsection \<open>Example requests\<close>

definition req_connect :: string where
  "req_connect = ''CONNECT example.com:443 HTTP/1.1'' @ CRLF @ CRLF"

definition req_get :: string where
  "req_get = ''GET http://example.com/foo HTTP/1.1'' @ CRLF @ ''Host: example.com'' @ CRLF @ CRLF"

definition req_two_spaces :: string where
  "req_two_spaces = ''GET  HTTP/1.1'' @ CRLF @ ''Host: example.com'' @ CRLF @ CRLF"

definition req_lf_only :: string where
  "req_lf_only = ''GET / HTTP/1.1'' @ [CHR 0x0A] @ ''Host: example.com''"

definition req_garbage :: string where
  "req_garbage = ''hello'' @ CRLF"

definition req_connect_no_port :: string where
  "req_connect_no_port = ''CONNECT example.com HTTP/1.1'' @ CRLF @ CRLF"

definition req_absolute :: string where
  "req_absolute = ''GET https://example.com/ HTTP/1.1'' @ CRLF @ CRLF"

section \<open>Forwarding pump (ProxyServer.forward)\<close>

text \<open>
  What one iteration of the pump's loop meets: a read that returns data (the empty string
  is end of stream) together with how the following \<open>write\<close> and \<open>drain\<close> end, or a read that
  ends in the 10 s timeout, a connection reset, another exception, or the cancellation of
  the task.
\<close>

datatype write_outcome = Written | WriteReset | WriteFailed | WriteCancelled

datatype pump_event =
    Read string write_outcome
  | ReadTimeout
  | ReadReset
  | ReadFailed
  | ReadCancelled

text \<open>How the coroutine ends: \<open>return bytes_count\<close>, \<open>CancelledError\<close> re-raised, or still
  waiting for a read when the listed events are used up.\<close>

datatype pump_result = Returned nat | TaskCancelled | Running

text \<open>The \<open>while True\<close> loop of \<open>forward\<close>, with the current \<open>bytes_count\<close>; the second
  component is what was handed to \<open>writer.write\<close>, in order.\<close>

fun forward_loop :: "pump_event list \<Rightarrow> nat \<Rightarrow> pump_result \<times> string" where
  "forward_loop [] bytes_count = (Running, [])"
| "forward_loop (Read data w # es) bytes_count =
     (if data = [] then (Returned bytes_count, [])
      else case w of
             Written \<Rightarrow>
               (case forward_loop es (bytes_count + length data) of
                  (r, out) \<Rightarrow> (r, data @ out))
           | WriteReset \<Rightarrow> (Returned (bytes_count + length data), data)
           | WriteFailed \<Rightarrow> (Returned (bytes_count + length data), data)
           | WriteCancelled \<Rightarrow> (TaskCancelled, data))"
| "forward_loop (ReadTimeout # es) bytes_count = (Returned bytes_count, [])"
| "forward_loop (ReadReset # es) bytes_count = (Returned bytes_count, [])"
| "forward_loop (ReadFailed # es) bytes_count = (Returned bytes_count, [])"
| "forward_loop (ReadCancelled # es) bytes_count = (TaskCancelled, [])"

definition forward :: "pump_event list \<Rightarrow> pump_result \<times> string" where
  "forward es = forward_loop es 0"

section \<open>Session (ProxyServer.handle\_client)\<close>

text \<open>
  What the world outside the session decides: the clock readings, the outcome of the head
  read, the library functions \<open>bytes.decode\<close> and \<open>urlparse\<close>, which connection attempts
  succeed (by attempt number and interface), whether the client's stream takes the
  handler's own response (\<open>drain\<close> does not raise), and the events of the two pumps.
\<close>

datatype head_read = HeadTimeout | HeadError | HeadData string

record session_env =
  env_select_clock :: "nat \<Rightarrow> nat \<Rightarrow> real"
  env_head :: head_read
  env_decode :: "string \<Rightarrow> string"
  env_urlparse :: "string \<Rightarrow> (string \<times> int option) option"
  env_connect_ok :: "nat \<Rightarrow> nat \<Rightarrow> bool"
  env_fail_clock :: "nat \<Rightarrow> real \<times> real"
  env_crash_clock :: "real \<times> real"
  env_drain_ok :: bool
  env_c2s_events :: "pump_event list"
  env_s2c_events :: "pump_event list"
  env_start_time :: real
  env_end_time :: real
  env_report_time :: real

datatype session_outcome =
  NoValidInterface | HeadReadTimeout | ParseError | BadGateway | Tunnelled | Crashed

record session_result =
  lb_after :: LoadBalancer
  client_out :: string
  remote_out :: string
  outcome :: session_outcome

text \<open>The \<open>finally\<close> block's statement on the session's interface.\<close>

definition release :: "LoadBalancer \<Rightarrow> nat \<Rightarrow> LoadBalancer" where
  "release lb i = lb\<lparr>interfaces := (interfaces lb)[i := release_connection (interfaces lb ! i)]\<rparr>"

text \<open>The outer \<open>except Exception\<close> handler: \<open>mark_interface_failed(interface, str(e))\<close>.\<close>

definition crash :: "session_env \<Rightarrow> LoadBalancer \<Rightarrow> nat \<Rightarrow> LoadBalancer" where
  "crash env lb i = mark_interface_failed lb i (fst (env_crash_clock env)) (snd (env_crash_clock env))"

text \<open>
  The connection loop \<open>for _ in range(len(self.load_balancer.interfaces))\<close> with \<open>n\<close>
  iterations left; \<open>k\<close> counts the attempts made. A failed \<open>try_connect\<close> marks the interface
  failed and the loop asks for the next one; should that selection raise, the exception
  leaves the loop.
\<close>

datatype connect_result =
    Connected LoadBalancer nat
  | Exhausted LoadBalancer nat
  | SelectionRaised LoadBalancer nat

fun connect_loop :: "session_env \<Rightarrow> nat \<Rightarrow> nat \<Rightarrow> LoadBalancer \<Rightarrow> nat \<Rightarrow> connect_result" where
  "connect_loop env 0 k lb i = Exhausted lb i"
| "connect_loop env (Suc n) k lb i =
     (if env_connect_ok env k i then Connected lb i
      else let lb1 = mark_interface_failed lb i (fst (env_fail_clock env k))
                       (snd (env_fail_clock env k))
           in case get_best_interface lb1 (env_select_clock env (Suc k)) of
                Inl e \<Rightarrow> SelectionRaised lb1 i
              | Inr (j, lb2) \<Rightarrow> connect_loop env n (Suc k) lb2 j)"

text \<open>The engine state a connection loop result carries.\<close>

fun result_lb :: "connect_result \<Rightarrow> LoadBalancer" where
  "result_lb (Connected lb j) = lb"
| "result_lb (Exhausted lb j) = lb"
| "result_lb (SelectionRaised lb j) = lb"

definition handle_client :: "session_env \<Rightarrow> LoadBalancer \<Rightarrow> session_result" where
  "handle_client env lb =
     (let bytes_transferred = 0 in
      case get_best_interface lb (env_select_clock env 0) of
        Inl e \<Rightarrow>
          \<lparr>lb_after = lb,
           client_out = ''HTTP/1.1 503 Service Unavailable'' @ CRLF @ CRLF,
           remote_out = [], outcome = NoValidInterface\<rparr>
      | Inr (i, lb0) \<Rightarrow>
          (case env_head env of
             HeadTimeout \<Rightarrow>
               \<lparr>lb_after = release lb0 i, client_out = [], remote_out = [],
                outcome = HeadReadTimeout\<rparr>
           | HeadError \<Rightarrow>
               \<lparr>lb_after = release (crash env lb0 i) i, client_out = [], remote_out = [],
                outcome = Crashed\<rparr>
           | HeadData request_data \<Rightarrow>
               (case parse_request (env_urlparse env) (env_decode env request_data) of
                  None \<Rightarrow>
                    \<lparr>lb_after = release lb0 i, client_out = [], remote_out = [],
                     outcome = ParseError\<rparr>
                | Some (method, host, port) \<Rightarrow>
                    (case connect_loop env (length (interfaces lb0)) 0 lb0 i of
                       SelectionRaised lb1 j \<Rightarrow>
                         \<lparr>lb_after = release (crash env lb1 j) j, client_out = [],
                          remote_out = [], outcome = Crashed\<rparr>
                     | Exhausted lb1 j \<Rightarrow>
                         \<lparr>lb_after = release (if env_drain_ok env then lb1 else crash env lb1 j) j,
                          client_out = ''HTTP/1.1 502 Bad Gateway'' @ CRLF @ CRLF,
                          remote_out = [], outcome = BadGateway\<rparr>
                     | Connected lb1 j \<Rightarrow>
                         let greeting = (if method = ''CONNECT''
                                         then ''HTTP/1.1 200 Connection established'' @ CRLF @ CRLF
                                         else []);
                             replay = (if method = ''CONNECT'' then [] else request_data);
                             client_to_server = (if env_drain_ok env then forward (env_c2s_events env)
                                                 else (Running, []));
                             server_to_client = (if env_drain_ok env then forward (env_s2c_events env)
                                                 else (Running, []));
                             response_time = env_end_time env - env_start_time env;
                             lb2 = lb1\<lparr>interfaces := (interfaces lb1)
                                        [j := update_stats (interfaces lb1 ! j) bytes_transferred
                                                response_time]\<rparr>;
                             lb3 = report_stats lb2 (env_report_time env);
                             lb4 = lb3\<lparr>interfaces := (interfaces lb3)
                                        [j := mark_request_success (interfaces lb3 ! j)]\<rparr>
                         in \<lparr>lb_after = release lb4 j,
                             client_out = greeting @ snd server_to_client,
                             remote_out = replay @ snd client_to_server,
                             outcome = Tunnelled\<rparr>))))"

definition env_tunnel :: session_env where
  "env_tunnel =
     \<lparr>env_select_clock = (\<lambda>k j. 10), env_head = HeadData req_connect, env_decode = (\<lambda>b. b),
      env_urlparse = (\<lambda>u. None), env_connect_ok = (\<lambda>k i. True),
      env_fail_clock = (\<lambda>k. (11, 11)), env_crash_clock = (12, 12), env_drain_ok = True,
      env_c2s_events = [Read ''hello'' Written, Read [] Written],
      env_s2c_events = [Read ''0123456'' Written, ReadCancelled],
      env_start_time = 10, env_end_time = 13, env_report_time = 13\<rparr>"


section \<open>Properties of the selection engine\<close>

lemma valid_index:
  assumes "valid \<noteq> []"
  shows "nat (c mod int (length valid)) < length valid"
  using assms by (simp add: nat_less_iff)

lemma round_robin_all_quarantined:
  assumes "valid \<noteq> []"
    and "\<forall>i\<in>set valid. \<exists>T. failed_interfaces lb (ip (interfaces lb ! i)) = Some T
            \<and> (\<forall>k<n. clk k - T \<le> failure_timeout)"
  shows "round_robin valid clk n lb =
           (None, if n = 0 then lb
                  else lb\<lparr>current_interface_index :=
                            (current_interface_index lb + int n) mod int (length valid)\<rparr>)"
  using assms(2)
proof (induction n arbitrary: lb clk)
  case 0
  then show ?case by simp
next
  case (Suc n)
  let ?K = "int (length valid)"
  let ?i = "valid ! nat (current_interface_index lb mod ?K)"
  let ?lb1 = "lb\<lparr>current_interface_index := (current_interface_index lb + 1) mod ?K\<rparr>"
  have mem: "?i \<in> set valid"
    using valid_index [OF assms(1)] by simp
  from Suc.prems mem obtain T where T: "failed_interfaces lb (ip (interfaces lb ! ?i)) = Some T"
    and le: "\<forall>k<Suc n. clk k - T \<le> failure_timeout" by blast
  have step: "is_interface_failed ?lb1 (interfaces ?lb1 ! ?i) (clk 0) = (True, ?lb1)"
  proof -
    from le have "clk 0 - T \<le> failure_timeout" by blast
    then show ?thesis using T by (simp add: is_interface_failed_def)
  qed
  have hyp: "\<forall>i\<in>set valid. \<exists>T. failed_interfaces ?lb1 (ip (interfaces ?lb1 ! i)) = Some T
            \<and> (\<forall>k<n. clk (Suc k) - T \<le> failure_timeout)"
    using Suc.prems by auto
  have rec: "round_robin valid (\<lambda>k. clk (Suc k)) n ?lb1 =
           (None, if n = 0 then ?lb1
                  else ?lb1\<lparr>current_interface_index :=
                            (current_interface_index ?lb1 + int n) mod ?K\<rparr>)"
    by (rule Suc.IH [OF hyp])
  have unfold: "round_robin valid clk (Suc n) lb = round_robin valid (\<lambda>k. clk (Suc k)) n ?lb1"
    using step by (simp add: Let_def)
  have arith: "((current_interface_index lb + 1) mod ?K + int n) mod ?K
                 = (current_interface_index lb + int (Suc n)) mod ?K"
    by (simp add: mod_add_left_eq add.assoc)
  show ?case
  proof (cases "n = 0")
    case True
    then show ?thesis unfolding unfold rec by simp
  next
    case False
    then show ?thesis unfolding unfold rec using arith by simp
  qed
qed

lemma round_robin_healthy:
  assumes "valid \<noteq> []"
    and "\<forall>i\<in>set valid. failed_interfaces lb (ip (interfaces lb ! i)) = None"
  shows "round_robin valid clk (Suc n) lb =
           (Some (valid ! nat (current_interface_index lb mod int (length valid))),
            lb\<lparr>current_interface_index :=
                  (current_interface_index lb + 1) mod int (length valid)\<rparr>)"
proof -
  let ?i = "valid ! nat (current_interface_index lb mod int (length valid))"
  have "?i \<in> set valid" using valid_index [OF assms(1)] by simp
  with assms(2) have "failed_interfaces lb (ip (interfaces lb ! ?i)) = None" by blast
  then show ?thesis by (simp add: is_interface_failed_def Let_def)
qed


lemma valid_interfaces_nonempty_interfaces:
  "valid_interfaces lb \<noteq> [] \<Longrightarrow> interfaces lb \<noteq> []"
  by (auto simp: valid_interfaces_def)

lemma distinct_valid_interfaces: "distinct (valid_interfaces lb)"
  by (simp add: valid_interfaces_def)

lemma valid_interfaces_cursor [simp]:
  "valid_interfaces (lb\<lparr>current_interface_index := c\<rparr>) = valid_interfaces lb"
  by (simp add: valid_interfaces_def)

text \<open>
  Claim C1 (panic reset). When there is at least one candidate (an interface whose ip is not
  link-local) and every candidate is in quarantine at each clock reading of the call (its ip
  is in \<open>failed_interfaces\<close> and the reading is at most \<open>failure_timeout\<close> after the entry
  time), \<open>get_best_interface\<close> returns the first candidate and leaves both
  \<open>failed_interfaces\<close> and \<open>consecutive_failures\<close> empty. The cursor has gone once round.
\<close>

theorem panic_reset:
  assumes "valid_interfaces lb \<noteq> []"
    and "\<forall>i\<in>set (valid_interfaces lb). \<exists>T.
           failed_interfaces lb (ip (interfaces lb ! i)) = Some T
           \<and> (\<forall>k<length (valid_interfaces lb). clk k - T \<le> failure_timeout)"
  shows "get_best_interface lb clk =
           Inr (valid_interfaces lb ! 0,
                lb\<lparr>current_interface_index :=
                      current_interface_index lb mod int (length (valid_interfaces lb)),
                    failed_interfaces := Map.empty, consecutive_failures := Map.empty\<rparr>)"
proof -
  let ?v = "valid_interfaces lb"
  have ne: "interfaces lb \<noteq> []"
    using assms(1) by (rule valid_interfaces_nonempty_interfaces)
  have len: "length ?v \<noteq> 0" using assms(1) by simp
  have "round_robin ?v clk (length ?v) lb =
          (None, lb\<lparr>current_interface_index :=
                      (current_interface_index lb + int (length ?v)) mod int (length ?v)\<rparr>)"
    using round_robin_all_quarantined [OF assms(1) assms(2)] len by simp
  then show ?thesis
    using ne assms(1) by (simp add: get_best_interface_def Let_def)
qed

lemma select_healthy:
  assumes "valid_interfaces lb \<noteq> []"
    and "\<forall>i\<in>set (valid_interfaces lb). failed_interfaces lb (ip (interfaces lb ! i)) = None"
  shows "get_best_interface lb clk =
           Inr (valid_interfaces lb !
                  nat (current_interface_index lb mod int (length (valid_interfaces lb))),
                lb\<lparr>current_interface_index :=
                      (current_interface_index lb + 1) mod int (length (valid_interfaces lb))\<rparr>)"
proof -
  let ?v = "valid_interfaces lb"
  obtain n where n: "length ?v = Suc n"
    using assms(1) by (cases ?v) auto
  have "round_robin ?v clk (Suc n) lb =
           (Some (?v ! nat (current_interface_index lb mod int (length ?v))),
            lb\<lparr>current_interface_index := (current_interface_index lb + 1) mod int (length ?v)\<rparr>)"
    by (rule round_robin_healthy [OF assms])
  then show ?thesis
    using valid_interfaces_nonempty_interfaces [OF assms(1)] assms(1) n
    by (simp add: get_best_interface_def Let_def)
qed


lemma upt_0_Suc_map: "[0..<Suc n] = 0 # map Suc [0..<n]"
  by (simp add: upt_conv_Cons map_Suc_upt del: upt_Suc)

lemma select_n_healthy:
  assumes "valid_interfaces lb \<noteq> []"
    and "\<forall>i\<in>set (valid_interfaces lb). failed_interfaces lb (ip (interfaces lb ! i)) = None"
  shows "select_n lb clks n =
           Inr (map (\<lambda>j. valid_interfaces lb !
                          nat ((current_interface_index lb + int j)
                                 mod int (length (valid_interfaces lb)))) [0..<n],
                if n = 0 then lb
                else lb\<lparr>current_interface_index :=
                      (current_interface_index lb + int n) mod int (length (valid_interfaces lb))\<rparr>)"
  using assms
proof (induction n arbitrary: lb clks)
  case 0
  then show ?case by simp
next
  case (Suc n)
  let ?v = "valid_interfaces lb"
  let ?K = "int (length ?v)"
  let ?c = "current_interface_index lb"
  let ?lb1 = "lb\<lparr>current_interface_index := (?c + 1) mod ?K\<rparr>"
  have first: "get_best_interface lb (clks 0) = Inr (?v ! nat (?c mod ?K), ?lb1)"
    by (rule select_healthy [OF Suc.prems])
  have v1: "valid_interfaces ?lb1 = ?v" by simp
  have p1: "valid_interfaces ?lb1 \<noteq> []" using Suc.prems(1) by simp
  have p2: "\<forall>i\<in>set (valid_interfaces ?lb1). failed_interfaces ?lb1 (ip (interfaces ?lb1 ! i)) = None"
    using Suc.prems(2) by simp
  have arith: "((?c + 1) mod ?K + int j) mod ?K = (?c + int (Suc j)) mod ?K" for j
    by (simp add: mod_add_left_eq add.assoc)
  have rest: "select_n ?lb1 (\<lambda>j. clks (Suc j)) n =
           Inr (map (\<lambda>j. ?v ! nat ((?c + int (Suc j)) mod ?K)) [0..<n],
                if n = 0 then ?lb1
                else lb\<lparr>current_interface_index := (?c + int (Suc n)) mod ?K\<rparr>)"
    using Suc.IH [OF p1 p2, of "\<lambda>j. clks (Suc j)"] arith by (simp del: of_nat_Suc)
  have m: "map (\<lambda>j. ?v ! nat ((?c + int j) mod ?K)) [0..<Suc n]
            = ?v ! nat (?c mod ?K) # map (\<lambda>j. ?v ! nat ((?c + int (Suc j)) mod ?K)) [0..<n]"
    unfolding upt_0_Suc_map by (simp add: comp_def del: of_nat_Suc)
  show ?case
  proof (cases "n = 0")
    case True
    then show ?thesis using first rest by simp
  next
    case False
    then show ?thesis unfolding m using first rest by (simp del: of_nat_Suc upt_Suc)
  qed
qed

lemma residue_step:
  fixes c :: int and K N p :: nat
  assumes "0 < K" "p < K"
  shows "(nat ((c + int N) mod int K) = p) = (Suc (N + nat ((c - 1 - int p) mod int K)) mod K = 0)"
proof -
  let ?s = "(c - 1 - int p) mod int K"
  have s0: "0 \<le> ?s" using assms by simp
  have "(Suc (N + nat ?s) mod K = 0) = (K dvd Suc (N + nat ?s))"
    by (simp add: dvd_eq_mod_eq_0)
  also have "\<dots> = (int K dvd int (Suc (N + nat ?s)))"
    by (simp only: int_dvd_int_iff)
  also have "int (Suc (N + nat ?s)) = (int N + 1) + ?s"
    using s0 by simp
  also have "(int K dvd (int N + 1) + ?s) = (((int N + 1) + ?s) mod int K = 0)"
    by (simp add: dvd_eq_mod_eq_0)
  also have "((int N + 1) + ?s) mod int K = ((int N + 1) + (c - 1 - int p)) mod int K"
    by (simp add: mod_add_right_eq)
  also have "(int N + 1) + (c - 1 - int p) = (c + int N) - int p"
    by simp
  also have "(((c + int N) - int p) mod int K = 0) = (int K dvd (c + int N) - int p)"
    by (simp add: dvd_eq_mod_eq_0)
  also have "\<dots> = ((c + int N) mod int K = int p mod int K)"
    by (simp add: mod_eq_dvd_iff)
  also have "int p mod int K = int p"
    using assms by simp
  also have "((c + int N) mod int K = int p) = (nat ((c + int N) mod int K) = p)"
    using assms by (auto simp: nat_eq_iff)
  finally show ?thesis by simp
qed

lemma count_residue:
  fixes c :: int and K N p :: nat
  assumes "0 < K" "p < K"
  shows "length (filter (\<lambda>j. nat ((c + int j) mod int K) = p) [0..<N])
           = (N + nat ((c - 1 - int p) mod int K)) div K"
proof (induction N)
  case 0
  have "nat ((c - 1 - int p) mod int K) < K" using assms by (simp add: nat_less_iff)
  then show ?case by simp
next
  case (Suc N)
  show ?case using Suc residue_step [OF assms, of c N] by (simp add: div_Suc)
qed

lemma count_residue_bounds:
  fixes c :: int and K N p :: nat
  assumes "0 < K" "p < K"
  defines "m \<equiv> length (filter (\<lambda>j. nat ((c + int j) mod int K) = p) [0..<N])"
  shows "m = N div K \<or> m = (N + K - 1) div K"
proof -
  let ?s = "nat ((c - 1 - int p) mod int K)"
  have s: "?s \<le> K - 1" using assms by (simp add: nat_le_iff)
  have m: "m = (N + ?s) div K" unfolding m_def by (rule count_residue [OF assms(1,2)])
  have lo: "N div K \<le> m" unfolding m by (rule div_le_mono) simp
  have "N + ?s \<le> N + K - 1" using s assms(1) by linarith
  then have hi: "m \<le> (N + K - 1) div K" unfolding m by (rule div_le_mono)
  have "(N + K - 1) div K \<le> Suc (N div K)"
  proof -
    have "(N + K - 1) div K \<le> (N + K) div K" by (rule div_le_mono) simp
    also have "\<dots> = Suc (N div K)" using assms(1) by simp
    finally show ?thesis .
  qed
  with lo hi show ?thesis by linarith
qed


lemma count_list_map_filter:
  "count_list (map f xs) y = length (filter (\<lambda>x. f x = y) xs)"
  by (induction xs) auto

text \<open>
  Claim C2 (round robin). With \<open>K \<ge> 1\<close> candidates, none of them in the quarantine map, \<open>N \<ge> 1\<close>
  calls of \<open>get_best_interface\<close> in a row all succeed, every candidate is returned
  \<open>\<lfloor>N/K\<rfloor>\<close> or \<open>\<lceil>N/K\<rceil>\<close> times, and the cursor advances by one (modulo \<open>K\<close>) in each call:
  by \<open>N\<close> over the run, by one in the first call.
\<close>

theorem round_robin_fair:
  fixes N :: nat
  assumes "valid_interfaces lb \<noteq> []"
    and "\<forall>i\<in>set (valid_interfaces lb). failed_interfaces lb (ip (interfaces lb ! i)) = None"
    and "1 \<le> N"
  defines "K \<equiv> length (valid_interfaces lb)"
  shows "\<exists>sel lb'. select_n lb clks N = Inr (sel, lb') \<and> length sel = N
           \<and> (\<forall>i\<in>set (valid_interfaces lb).
                 count_list sel i = N div K \<or> count_list sel i = (N + K - 1) div K)
           \<and> current_interface_index lb' = (current_interface_index lb + int N) mod int K
           \<and> (\<exists>i. get_best_interface lb (clks 0) =
                  Inr (i, lb\<lparr>current_interface_index :=
                               (current_interface_index lb + 1) mod int K\<rparr>))"
proof -
  let ?v = "valid_interfaces lb"
  let ?c = "current_interface_index lb"
  let ?f = "\<lambda>j. ?v ! nat ((?c + int j) mod int K)"
  have K: "0 < K" using assms(1) by (simp add: K_def)
  have run: "select_n lb clks N =
               Inr (map ?f [0..<N], lb\<lparr>current_interface_index := (?c + int N) mod int K\<rparr>)"
    using select_n_healthy [OF assms(1,2), of clks N] assms(3) by (simp add: K_def)
  have cnt: "count_list (map ?f [0..<N]) i = N div K \<or> count_list (map ?f [0..<N]) i = (N + K - 1) div K"
    if "i \<in> set ?v" for i
  proof -
    from that obtain p where p: "p < K" and i: "i = ?v ! p"
      by (auto simp: in_set_conv_nth K_def)
    have "nat ((?c + int j) mod int K) < K" for j
      using K by (simp add: nat_less_iff)
    then have eq: "(?f j = i) = (nat ((?c + int j) mod int K) = p)" for j
      unfolding i using p distinct_valid_interfaces [of lb]
      by (simp add: nth_eq_iff_index_eq K_def)
    have "count_list (map ?f [0..<N]) i
            = length (filter (\<lambda>j. nat ((?c + int j) mod int K) = p) [0..<N])"
      unfolding count_list_map_filter eq ..
    then show ?thesis
      using count_residue_bounds [OF K p, of ?c N] by simp
  qed
  have one: "get_best_interface lb (clks 0) =
               Inr (?v ! nat (?c mod int K), lb\<lparr>current_interface_index := (?c + 1) mod int K\<rparr>)"
    unfolding K_def by (rule select_healthy [OF assms(1,2)])
  show ?thesis
    using run cnt one by auto
qed

lemma valid_interfaces_lb_AB: "valid_interfaces lb_AB = [0, 1]"
  by (simp add: valid_interfaces_def lb_AB_def LoadBalancer_init_def iface_A_def iface_B_def
      NetworkInterface_init_def startswith_def upt_conv_Cons)

lemma valid_interfaces_lb_AB_quarantined: "valid_interfaces lb_AB_quarantined = [0, 1]"
  by (simp add: valid_interfaces_def lb_AB_quarantined_def lb_AB_def LoadBalancer_init_def iface_A_def iface_B_def
      NetworkInterface_init_def startswith_def upt_conv_Cons)

theorem panic_reset_witness:
  "get_best_interface lb_AB_quarantined (\<lambda>k. 103) =
     Inr (0, lb_AB_quarantined\<lparr>current_interface_index := 0,
                failed_interfaces := Map.empty, consecutive_failures := Map.empty\<rparr>)"
  using panic_reset [of lb_AB_quarantined "\<lambda>k. 103"]
  by (simp add: valid_interfaces_lb_AB_quarantined)
     (simp add: lb_AB_quarantined_def lb_AB_def LoadBalancer_init_def iface_A_def iface_B_def
        NetworkInterface_init_def failure_timeout_def)

theorem round_robin_fair_witness:
  "\<exists>sel lb'. select_n lb_AB (\<lambda>j k. 0) 3 = Inr (sel, lb') \<and> length sel = 3
       \<and> (count_list sel 0 = 1 \<or> count_list sel 0 = 2)
       \<and> (count_list sel 1 = 1 \<or> count_list sel 1 = 2)
       \<and> current_interface_index lb' = 1"
proof -
  have h1: "valid_interfaces lb_AB \<noteq> []"
    by (simp add: valid_interfaces_lb_AB)
  have h2: "\<forall>i\<in>set (valid_interfaces lb_AB).
              failed_interfaces lb_AB (ip (interfaces lb_AB ! i)) = None"
    by (simp add: lb_AB_def LoadBalancer_init_def)
  have h3: "1 \<le> (3::nat)" by simp
  have l: "length [0::nat, 1] = 2" by simp
  have c: "current_interface_index lb_AB = 0"
    by (simp add: lb_AB_def LoadBalancer_init_def)
  note r = round_robin_fair [OF h1 h2 h3, of "\<lambda>j k. 0", unfolded valid_interfaces_lb_AB l c]
  then show ?thesis by auto
qed

lemma is_interface_failed_interfaces [simp]:
  "interfaces (snd (is_interface_failed lb x now)) = interfaces lb"
  by (simp add: is_interface_failed_def split: option.splits)

lemma is_interface_failed_consecutive [simp]:
  "consecutive_failures (snd (is_interface_failed lb x now)) = consecutive_failures lb"
  by (simp add: is_interface_failed_def split: option.splits)

lemma is_interface_failed_report [simp]:
  "last_stats_report (snd (is_interface_failed lb x now)) = last_stats_report lb"
  by (simp add: is_interface_failed_def split: option.splits)

lemma round_robin_interfaces [simp]:
  "interfaces (snd (round_robin valid clk n lb)) = interfaces lb"
proof (induction n arbitrary: lb clk)
  case 0
  then show ?case by simp
next
  case (Suc n)
  let ?lb1 = "lb\<lparr>current_interface_index :=
                     (current_interface_index lb + 1) mod int (length valid)\<rparr>"
  let ?r = "is_interface_failed ?lb1
              (interfaces ?lb1 ! (valid ! nat (current_interface_index lb mod int (length valid))))
              (clk 0)"
  have "interfaces (snd ?r) = interfaces lb"
    by (simp del: is_interface_failed_interfaces add: is_interface_failed_interfaces [of ?lb1])
  then show ?case
    using Suc.IH [of "\<lambda>k. clk (Suc k)" "snd ?r"]
    by (simp add: Let_def split_beta)
qed

lemma round_robin_consecutive [simp]:
  "consecutive_failures (snd (round_robin valid clk n lb)) = consecutive_failures lb"
proof (induction n arbitrary: lb clk)
  case 0
  then show ?case by simp
next
  case (Suc n)
  let ?lb1 = "lb\<lparr>current_interface_index :=
                     (current_interface_index lb + 1) mod int (length valid)\<rparr>"
  let ?r = "is_interface_failed ?lb1
              (interfaces ?lb1 ! (valid ! nat (current_interface_index lb mod int (length valid))))
              (clk 0)"
  have "consecutive_failures (snd ?r) = consecutive_failures lb"
    by (simp del: is_interface_failed_consecutive add: is_interface_failed_consecutive [of ?lb1])
  then show ?case
    using Suc.IH [of "\<lambda>k. clk (Suc k)" "snd ?r"]
    by (simp add: Let_def split_beta)
qed

lemma round_robin_member:
  assumes "valid \<noteq> []" and "fst (round_robin valid clk n lb) = Some i"
  shows "i \<in> set valid"
  using assms(2)
proof (induction n arbitrary: lb clk)
  case 0
  then show ?case by simp
next
  case (Suc n)
  have "valid ! nat (current_interface_index lb mod int (length valid)) \<in> set valid"
    using assms(1) by (simp add: nat_less_iff)
  with Suc show ?case
    by (auto simp: Let_def split_beta split: if_splits)
qed

lemma valid_interfaces_bound: "i \<in> set (valid_interfaces lb) \<Longrightarrow> i < length (interfaces lb)"
  by (simp add: valid_interfaces_def)

lemma get_best_interface_Inr:
  assumes "get_best_interface lb clk = Inr (i, lb')"
  defines "r \<equiv> round_robin (valid_interfaces lb) clk (length (valid_interfaces lb)) lb"
  shows "valid_interfaces lb \<noteq> [] \<and>
         (fst r = Some i \<and> lb' = snd r
          \<or> fst r = None \<and> i = valid_interfaces lb ! 0
              \<and> lb' = (snd r)\<lparr>failed_interfaces := Map.empty, consecutive_failures := Map.empty\<rparr>)"
proof -
  obtain w l where wl: "r = (w, l)" by (cases r)
  from assms(1) have ne: "valid_interfaces lb \<noteq> []" and ne': "interfaces lb \<noteq> []"
    by (simp_all add: get_best_interface_def Let_def split: if_splits)
  show ?thesis
  proof (cases w)
    case None
    with assms(1) ne ne' wl show ?thesis
      by (simp add: get_best_interface_def Let_def r_def)
  next
    case (Some j)
    with assms(1) ne ne' wl show ?thesis
      by (simp add: get_best_interface_def Let_def r_def)
  qed
qed

lemma get_best_interface_interfaces:
  assumes "get_best_interface lb clk = Inr (i, lb')"
  shows "interfaces lb' = interfaces lb"
  using get_best_interface_Inr [OF assms] by auto

lemma get_best_interface_consecutive:
  assumes "get_best_interface lb clk = Inr (i, lb')"
  shows "consecutive_failures lb' = consecutive_failures lb \<or> consecutive_failures lb' = Map.empty"
  using get_best_interface_Inr [OF assms] by auto

lemma get_best_interface_valid:
  assumes "get_best_interface lb clk = Inr (i, lb')"
  shows "i \<in> set (valid_interfaces lb)"
proof -
  note r = get_best_interface_Inr [OF assms]
  then have ne: "valid_interfaces lb \<noteq> []" by simp
  from r round_robin_member [OF ne] ne show ?thesis
    by (auto simp: hd_conv_nth [symmetric])
qed

lemma get_best_interface_bound:
  "get_best_interface lb clk = Inr (i, lb') \<Longrightarrow> i < length (interfaces lb)"
  by (rule valid_interfaces_bound [OF get_best_interface_valid])

lemma mark_interface_failed_length [simp]:
  "length (interfaces (mark_interface_failed lb i t1 t2)) = length (interfaces lb)"
  by (simp add: mark_interface_failed_def Let_def)

lemma mark_interface_failed_interfaces:
  "\<exists>st\<in>{''FAILED'', ''DEGRADED''}.
     interfaces (mark_interface_failed lb i t1 t2) =
       (interfaces lb)[i := (mark_request_failed (interfaces lb ! i))
                              \<lparr>last_failure := Some t1, status := st\<rparr>]"
  by (simp add: mark_interface_failed_def Let_def)

lemma set_update_pointwise:
  assumes "\<forall>x\<in>set xs. P x" and "P y"
  shows "\<forall>x\<in>set (xs[i := y]). P x"
  using assms set_update_subset_insert [of xs i y] by auto

lemma apply_op_pointwise:
  assumes inv: "\<forall>x\<in>set (interfaces lb). P x"
    and us: "\<And>x b r. P x \<Longrightarrow> P (update_stats x b r)"
    and ms: "\<And>x. P x \<Longrightarrow> P (mark_request_success x)"
    and rc: "\<And>x. P x \<Longrightarrow> P (release_connection x)"
    and mf: "\<And>x t st. P x \<Longrightarrow> st \<in> {''FAILED'', ''DEGRADED''} \<Longrightarrow>
               P ((mark_request_failed x)\<lparr>last_failure := Some t, status := st\<rparr>)"
  shows "\<forall>x\<in>set (interfaces (apply_op lb op)). P x"
proof (cases op)
  case (Select clk)
  show ?thesis
  proof (cases "get_best_interface lb clk")
    case (Inl e)
    with Select inv show ?thesis by simp
  next
    case (Inr r)
    obtain i lb' where r: "r = (i, lb')" by (cases r)
    with Inr get_best_interface_interfaces have "interfaces lb' = interfaces lb" by blast
    with Select Inr r inv show ?thesis by simp
  qed
next
  case (MarkFailed i t1 t2)
  show ?thesis
  proof (cases "i < length (interfaces lb)")
    case True
    then have Pi: "P (interfaces lb ! i)" using inv by simp
    obtain st where st: "st \<in> {''FAILED'', ''DEGRADED''}"
      and eq: "interfaces (mark_interface_failed lb i t1 t2) =
                 (interfaces lb)[i := (mark_request_failed (interfaces lb ! i))
                                        \<lparr>last_failure := Some t1, status := st\<rparr>]"
      using mark_interface_failed_interfaces [of lb i t1 t2] by blast
    show ?thesis
      using MarkFailed True set_update_pointwise [OF inv mf [OF Pi st]] eq by simp
  next
    case False
    with MarkFailed inv show ?thesis by simp
  qed
next
  case (UpdateStats i b r)
  show ?thesis
  proof (cases "i < length (interfaces lb)")
    case True
    then have "P (interfaces lb ! i)" using inv by simp
    from set_update_pointwise [OF inv us [OF this]] UpdateStats True show ?thesis by simp
  next
    case False
    with UpdateStats inv show ?thesis by simp
  qed
next
  case (MarkSuccess i)
  show ?thesis
  proof (cases "i < length (interfaces lb)")
    case True
    then have "P (interfaces lb ! i)" using inv by simp
    from set_update_pointwise [OF inv ms [OF this]] MarkSuccess True show ?thesis by simp
  next
    case False
    with MarkSuccess inv show ?thesis by simp
  qed
next
  case (ReportStats t)
  with inv show ?thesis by (simp add: report_stats_def)
next
  case (Release i)
  show ?thesis
  proof (cases "i < length (interfaces lb)")
    case True
    then have "P (interfaces lb ! i)" using inv by simp
    from set_update_pointwise [OF inv rc [OF this]] Release True show ?thesis by simp
  next
    case False
    with Release inv show ?thesis by simp
  qed
qed

lemma run_ops_pointwise:
  assumes inv: "\<forall>x\<in>set (interfaces lb). P x"
    and us: "\<And>x b r. P x \<Longrightarrow> P (update_stats x b r)"
    and ms: "\<And>x. P x \<Longrightarrow> P (mark_request_success x)"
    and rc: "\<And>x. P x \<Longrightarrow> P (release_connection x)"
    and mf: "\<And>x t st. P x \<Longrightarrow> st \<in> {''FAILED'', ''DEGRADED''} \<Longrightarrow>
               P ((mark_request_failed x)\<lparr>last_failure := Some t, status := st\<rparr>)"
  shows "\<forall>x\<in>set (interfaces (run_ops lb ops)). P x"
  using inv unfolding run_ops_def
proof (induction ops arbitrary: lb)
  case Nil
  then show ?case by simp
next
  case (Cons op ops)
  have "\<forall>x\<in>set (interfaces (apply_op lb op)). P x"
    by (rule apply_op_pointwise [OF Cons.prems us ms rc mf])
  from Cons.IH [OF this] show ?case by simp
qed

lemma iface_inv_init: "iface_inv (NetworkInterface_init n a)"
  by (simp add: iface_inv_def NetworkInterface_init_def)

text \<open>
  Claim C8 (interface invariants). If every interface of the engine satisfies
  \<open>successful_requests + failed_requests \<le> total_requests\<close>, \<open>active_connections \<ge> 0\<close> and
  \<open>status \<in> {ACTIVE, DEGRADED, FAILED}\<close>, then so does every interface after any sequence
  of operations (selection, failure marking, \<open>update_stats\<close>, success marking, report,
  teardown); a freshly constructed interface satisfies them. \<open>update_stats\<close> increments
  only \<open>total_requests\<close>; the success and failure marks increment \<open>total_requests\<close> and
  their own counter.
\<close>

theorem interface_invariants:
  assumes "\<forall>x\<in>set (interfaces lb). iface_inv x"
  shows "(\<forall>x\<in>set (interfaces (run_ops lb ops)). iface_inv x)
    \<and> iface_inv (NetworkInterface_init n a)
    \<and> (total_requests (update_stats s b r) = total_requests s + 1
        \<and> successful_requests (update_stats s b r) = successful_requests s
        \<and> failed_requests (update_stats s b r) = failed_requests s)
    \<and> (total_requests (mark_request_success s) = total_requests s + 1
        \<and> successful_requests (mark_request_success s) = successful_requests s + 1
        \<and> failed_requests (mark_request_success s) = failed_requests s)
    \<and> (total_requests (mark_request_failed s) = total_requests s + 1
        \<and> failed_requests (mark_request_failed s) = failed_requests s + 1
        \<and> successful_requests (mark_request_failed s) = successful_requests s)"
proof -
  have "\<forall>x\<in>set (interfaces (run_ops lb ops)). iface_inv x"
  proof (rule run_ops_pointwise [OF assms])
    show "iface_inv (update_stats x b r)" if "iface_inv x" for x b r
      using that by (simp add: iface_inv_def update_stats_def Let_def)
    show "iface_inv (mark_request_success x)" if "iface_inv x" for x
      using that by (simp add: iface_inv_def mark_request_success_def)
    show "iface_inv (release_connection x)" if "iface_inv x" for x
      using that by (simp add: iface_inv_def release_connection_def)
    show "iface_inv ((mark_request_failed x)\<lparr>last_failure := Some t, status := st\<rparr>)"
      if "iface_inv x" "st \<in> {''FAILED'', ''DEGRADED''}" for x t st
      using that by (auto simp: iface_inv_def mark_request_failed_def)
  qed
  then show ?thesis
    by (simp add: iface_inv_init update_stats_def Let_def mark_request_success_def
        mark_request_failed_def)
qed

text \<open>
  Claim C3 (failure marking). \<open>mark_interface_failed\<close> on an interface of the list adds one
  to its \<open>failed_requests\<close> and \<open>total_requests\<close> and stores the clock reading as its last
  failure. With \<open>n\<close> the incremented consecutive-failure count of its ip: if \<open>n \<ge> 3\<close> the
  ip enters \<open>failed_interfaces\<close> with the (second) clock reading, the status becomes
  \<open>FAILED\<close> and the count is reset to 0; otherwise the status becomes \<open>DEGRADED\<close>, the
  count is \<open>n\<close> and the quarantine map is untouched.
\<close>

theorem mark_interface_failed_effect:
  fixes lb :: LoadBalancer and i :: nat and t1 t2 :: real
  assumes "i < length (interfaces lb)"
  defines "ifc \<equiv> interfaces lb ! i"
    and "lb' \<equiv> mark_interface_failed lb i t1 t2"
  defines "ifc' \<equiv> interfaces lb' ! i"
    and "n \<equiv> (case consecutive_failures lb (ip ifc) of None \<Rightarrow> 0 | Some c \<Rightarrow> c) + 1"
  shows "failed_requests ifc' = failed_requests ifc + 1
    \<and> total_requests ifc' = total_requests ifc + 1
    \<and> last_failure ifc' = Some t1
    \<and> (if n \<ge> 3
        then failed_interfaces lb' (ip ifc) = Some t2 \<and> status ifc' = ''FAILED''
             \<and> consecutive_failures lb' (ip ifc) = Some 0
        else status ifc' = ''DEGRADED'' \<and> consecutive_failures lb' (ip ifc) = Some n
             \<and> failed_interfaces lb' = failed_interfaces lb)"
  using assms(1)
  by (simp add: ifc_def lb'_def ifc'_def n_def mark_interface_failed_def Let_def
      mark_request_failed_def max_consecutive_failures_def)

lemma interfaces_lb_AB [simp]: "interfaces lb_AB = [iface_A, iface_B]"
  by (simp add: lb_AB_def LoadBalancer_init_def)

lemma ip_iface_A [simp]: "ip iface_A = ''10.0.0.2''"
  by (simp add: iface_A_def NetworkInterface_init_def)

lemma ip_iface_B [simp]: "ip iface_B = ''10.0.0.3''"
  by (simp add: iface_B_def NetworkInterface_init_def)

theorem mark_interface_failed_effect_witness:
  "(let lb' = mark_interface_failed lb_AB 0 7 8 in
      failed_requests (interfaces lb' ! 0) = 1 \<and> total_requests (interfaces lb' ! 0) = 1
      \<and> last_failure (interfaces lb' ! 0) = Some 7 \<and> status (interfaces lb' ! 0) = ''DEGRADED''
      \<and> consecutive_failures lb' ''10.0.0.2'' = Some 1 \<and> failed_interfaces lb' = Map.empty)
   \<and> (let lb' = mark_interface_failed lb_AB_two_failures 0 7 8 in
      failed_requests (interfaces lb' ! 0) = 1 \<and> total_requests (interfaces lb' ! 0) = 1
      \<and> last_failure (interfaces lb' ! 0) = Some 7 \<and> status (interfaces lb' ! 0) = ''FAILED''
      \<and> consecutive_failures lb' ''10.0.0.2'' = Some 0
      \<and> failed_interfaces lb' ''10.0.0.2'' = Some 8)"
proof -
  have a: "(0::nat) < length (interfaces lb_AB)" by simp
  have b: "(0::nat) < length (interfaces lb_AB_two_failures)"
    by (simp add: lb_AB_two_failures_def)
  note r1 = mark_interface_failed_effect [OF a, of 7 8]
  note r2 = mark_interface_failed_effect [OF b, of 7 8]
  have i1: "failed_requests iface_A = 0 \<and> total_requests iface_A = 0"
    by (simp add: iface_A_def NetworkInterface_init_def)
  have f1: "failed_interfaces lb_AB = Map.empty" "consecutive_failures lb_AB = Map.empty"
    by (simp_all add: lb_AB_def LoadBalancer_init_def)
  from r1 have "failed_requests (interfaces (mark_interface_failed lb_AB 0 7 8) ! 0) = 1
      \<and> total_requests (interfaces (mark_interface_failed lb_AB 0 7 8) ! 0) = 1
      \<and> last_failure (interfaces (mark_interface_failed lb_AB 0 7 8) ! 0) = Some 7
      \<and> status (interfaces (mark_interface_failed lb_AB 0 7 8) ! 0) = ''DEGRADED''
      \<and> consecutive_failures (mark_interface_failed lb_AB 0 7 8) ''10.0.0.2'' = Some 1
      \<and> failed_interfaces (mark_interface_failed lb_AB 0 7 8) = Map.empty"
    by (simp add: i1 f1)
  moreover from r2 have "failed_requests (interfaces (mark_interface_failed lb_AB_two_failures 0 7 8) ! 0) = 1
      \<and> total_requests (interfaces (mark_interface_failed lb_AB_two_failures 0 7 8) ! 0) = 1
      \<and> last_failure (interfaces (mark_interface_failed lb_AB_two_failures 0 7 8) ! 0) = Some 7
      \<and> status (interfaces (mark_interface_failed lb_AB_two_failures 0 7 8) ! 0) = ''FAILED''
      \<and> consecutive_failures (mark_interface_failed lb_AB_two_failures 0 7 8) ''10.0.0.2'' = Some 0
      \<and> failed_interfaces (mark_interface_failed lb_AB_two_failures 0 7 8) ''10.0.0.2'' = Some 8"
    by (simp add: lb_AB_two_failures_def i1)
  ultimately show ?thesis by (simp add: Let_def)
qed

lemma apply_op_length [simp]: "length (interfaces (apply_op lb op)) = length (interfaces lb)"
proof (cases op)
  case (Select clk)
  show ?thesis
  proof (cases "get_best_interface lb clk")
    case (Inl e)
    with Select show ?thesis by simp
  next
    case (Inr r)
    obtain i lb' where "r = (i, lb')" by (cases r)
    with Select Inr get_best_interface_interfaces [of lb clk i lb'] show ?thesis by simp
  qed
qed (simp_all add: report_stats_def)

lemma run_ops_length [simp]: "length (interfaces (run_ops lb ops)) = length (interfaces lb)"
  unfolding run_ops_def by (induction ops arbitrary: lb) simp_all

lemma iface_inv_A: "iface_inv iface_A"
  by (simp add: iface_A_def iface_inv_init)

lemma iface_inv_B: "iface_inv iface_B"
  by (simp add: iface_B_def iface_inv_init)

theorem interface_invariants_witness:
  "iface_inv (interfaces (run_ops lb_AB [Select (\<lambda>k. 1), MarkFailed 0 2 2, Select (\<lambda>k. 3),
                            UpdateStats 1 0 4, MarkSuccess 1, Release 1]) ! 0)
   \<and> iface_inv (interfaces (run_ops lb_AB [Select (\<lambda>k. 1), MarkFailed 0 2 2, Select (\<lambda>k. 3),
                            UpdateStats 1 0 4, MarkSuccess 1, Release 1]) ! 1)"
proof -
  let ?ops = "[Select (\<lambda>k. 1), MarkFailed 0 2 2, Select (\<lambda>k. 3),
               UpdateStats 1 0 4, MarkSuccess 1, Release 1]"
  have h: "\<forall>x\<in>set (interfaces lb_AB). iface_inv x"
    by (simp add: iface_inv_A iface_inv_B)
  from interface_invariants [OF h, of ?ops]
  have all: "\<forall>x\<in>set (interfaces (run_ops lb_AB ?ops)). iface_inv x" by blast
  have "length (interfaces (run_ops lb_AB ?ops)) = 2" by simp
  then have "interfaces (run_ops lb_AB ?ops) ! 0 \<in> set (interfaces (run_ops lb_AB ?ops))"
    and "interfaces (run_ops lb_AB ?ops) ! 1 \<in> set (interfaces (run_ops lb_AB ?ops))"
    by (simp_all only: nth_mem)
  with all show ?thesis by blast
qed

lemma ran_upd_bound:
  assumes "\<forall>c\<in>ran m. P c" and "P v"
  shows "\<forall>c\<in>ran (m(a \<mapsto> v)). P c"
  using assms by (auto simp: ran_def split: if_splits)

lemma mark_interface_failed_bounded:
  assumes "\<forall>c\<in>ran (consecutive_failures lb). c \<le> 2"
  shows "\<forall>c\<in>ran (consecutive_failures (mark_interface_failed lb i t1 t2)). c \<le> 2"
proof -
  let ?a = "ip (interfaces lb ! i)"
  let ?n = "(case consecutive_failures lb ?a of None \<Rightarrow> 0 | Some c \<Rightarrow> c) + 1"
  show ?thesis
  proof (cases "?n \<ge> max_consecutive_failures")
    case True
    then have "consecutive_failures (mark_interface_failed lb i t1 t2)
                 = (consecutive_failures lb)(?a \<mapsto> 0)"
      by (simp add: mark_interface_failed_def Let_def mark_request_failed_def)
    then show ?thesis using ran_upd_bound [OF assms, of 0 ?a] by simp
  next
    case False
    then have eq: "consecutive_failures (mark_interface_failed lb i t1 t2)
                 = (consecutive_failures lb)(?a \<mapsto> ?n)"
      by (simp add: mark_interface_failed_def Let_def mark_request_failed_def)
    from False have "?n \<le> 2" by (simp add: max_consecutive_failures_def)
    from ran_upd_bound [OF assms this] eq show ?thesis by simp
  qed
qed

lemma get_best_interface_bounded:
  assumes "\<forall>c\<in>ran (consecutive_failures lb). c \<le> 2"
    and "get_best_interface lb clk = Inr (j, lb')"
  shows "\<forall>c\<in>ran (consecutive_failures lb'). c \<le> 2"
  using get_best_interface_consecutive [OF assms(2)] assms(1) by auto

lemma apply_op_bounded:
  assumes "\<forall>c\<in>ran (consecutive_failures lb). c \<le> 2"
  shows "\<forall>c\<in>ran (consecutive_failures (apply_op lb op)). c \<le> 2"
proof (cases op)
  case (Select clk)
  show ?thesis
  proof (cases "get_best_interface lb clk")
    case (Inl e)
    with Select assms show ?thesis by simp
  next
    case (Inr r)
    obtain i lb' where r: "r = (i, lb')" by (cases r)
    from get_best_interface_bounded [OF assms] Inr r Select show ?thesis by simp
  qed
next
  case (MarkFailed i t1 t2)
  with assms mark_interface_failed_bounded [OF assms] show ?thesis by simp
qed (use assms in \<open>simp_all add: report_stats_def\<close>)

lemma run_ops_bounded:
  assumes "\<forall>c\<in>ran (consecutive_failures lb). c \<le> 2"
  shows "\<forall>c\<in>ran (consecutive_failures (run_ops lb ops)). c \<le> 2"
  using assms unfolding run_ops_def
proof (induction ops arbitrary: lb)
  case Nil
  then show ?case by simp
next
  case (Cons op ops)
  from Cons.IH [OF apply_op_bounded [OF Cons.prems]] show ?case by simp
qed

text \<open>
  Claim C10 (stored failure counts stay below the threshold). If every stored
  consecutive-failure count is at most 2, this still holds after \<open>mark_interface_failed\<close>,
  after \<open>get_best_interface\<close> (which keeps the map or clears it) and after any sequence of
  operations; the map of a new engine is empty; and the count stored for the marked ip is
  at most 2 whatever the state before.
\<close>

theorem consecutive_failures_bounded:
  assumes "\<forall>c\<in>ran (consecutive_failures lb). c \<le> 2"
  shows "(\<forall>c\<in>ran (consecutive_failures (mark_interface_failed lb i t1 t2)). c \<le> 2)
    \<and> (\<forall>j lb'. get_best_interface lb clk = Inr (j, lb')
          \<longrightarrow> (\<forall>c\<in>ran (consecutive_failures lb'). c \<le> 2))
    \<and> (\<forall>c\<in>ran (consecutive_failures (run_ops lb ops)). c \<le> 2)
    \<and> ran (consecutive_failures (LoadBalancer_init ifs)) = {}
    \<and> (\<exists>c\<le>2. consecutive_failures (mark_interface_failed lb i t1 t2)
                  (ip (interfaces lb ! i)) = Some c)"
proof -
  have "\<exists>c\<le>2. consecutive_failures (mark_interface_failed lb i t1 t2)
                  (ip (interfaces lb ! i)) = Some c"
    by (simp add: mark_interface_failed_def Let_def mark_request_failed_def
        max_consecutive_failures_def)
  then show ?thesis
    using mark_interface_failed_bounded [OF assms] get_best_interface_bounded [OF assms]
      run_ops_bounded [OF assms]
    by (simp add: LoadBalancer_init_def)
qed

theorem consecutive_failures_bounded_witness:
  "consecutive_failures (mark_interface_failed lb_AB_two_failures 0 7 8) ''10.0.0.2'' = Some 0
   \<and> (\<exists>c\<le>2. consecutive_failures
         (run_ops lb_AB_two_failures [MarkFailed 1 1 1, MarkFailed 1 2 2]) ''10.0.0.3'' = Some c)"
proof -
  have h: "\<forall>c\<in>ran (consecutive_failures lb_AB_two_failures). c \<le> 2"
    by (simp add: lb_AB_two_failures_def)
  note r = consecutive_failures_bounded [OF h, of 0 7 8 "\<lambda>k. 0"
      "[MarkFailed 1 1 1, MarkFailed 1 2 2]" "[]"]
  have v: "consecutive_failures
         (run_ops lb_AB_two_failures [MarkFailed 1 1 1, MarkFailed 1 2 2]) ''10.0.0.3'' = Some 2"
    by (simp add: run_ops_def lb_AB_two_failures_def mark_interface_failed_def Let_def
        mark_request_failed_def max_consecutive_failures_def)
  from r have "\<forall>c\<in>ran (consecutive_failures
         (run_ops lb_AB_two_failures [MarkFailed 1 1 1, MarkFailed 1 2 2])). c \<le> 2" by blast
  with v have "\<exists>c\<le>2. consecutive_failures
         (run_ops lb_AB_two_failures [MarkFailed 1 1 1, MarkFailed 1 2 2]) ''10.0.0.3'' = Some c"
    by (auto simp: ran_def)
  moreover have "consecutive_failures (mark_interface_failed lb_AB_two_failures 0 7 8) ''10.0.0.2'' = Some 0"
    by (simp add: lb_AB_two_failures_def mark_interface_failed_def Let_def
        mark_request_failed_def max_consecutive_failures_def)
  ultimately show ?thesis by blast
qed

lemma round_robin_skips_quarantined:
  assumes "failed_interfaces lb (ip (interfaces lb ! i)) = Some T"
    and "\<forall>k<n. clk k - T \<le> failure_timeout"
  shows "fst (round_robin valid clk n lb) \<noteq> Some i
         \<and> failed_interfaces (snd (round_robin valid clk n lb)) (ip (interfaces lb ! i)) = Some T"
  using assms
proof (induction n arbitrary: lb clk)
  case 0
  then show ?case by simp
next
  case (Suc n)
  let ?x = "valid ! nat (current_interface_index lb mod int (length valid))"
  let ?lb1 = "lb\<lparr>current_interface_index :=
                     (current_interface_index lb + 1) mod int (length valid)\<rparr>"
  let ?r = "is_interface_failed ?lb1 (interfaces ?lb1 ! ?x) (clk 0)"
  let ?a = "ip (interfaces lb ! i)"
  from Suc.prems(2) have now: "clk 0 - T \<le> failure_timeout" by blast
  have later: "\<forall>k<n. clk (Suc k) - T \<le> failure_timeout" using Suc.prems(2) by auto
  have unfold: "round_robin valid clk (Suc n) lb =
          (if \<not> fst ?r then (Some ?x, snd ?r) else round_robin valid (\<lambda>k. clk (Suc k)) n (snd ?r))"
    by (simp add: Let_def split_beta)
  have keep: "failed_interfaces (snd ?r) ?a = Some T"
    using Suc.prems(1) now by (auto simp: is_interface_failed_def split: option.splits)
  have ifs: "interfaces (snd ?r) = interfaces lb"
    by (simp del: is_interface_failed_interfaces add: is_interface_failed_interfaces [of ?lb1])
  show ?case
  proof (cases "fst ?r")
    case True
    have "fst (round_robin valid (\<lambda>k. clk (Suc k)) n (snd ?r)) \<noteq> Some i
         \<and> failed_interfaces (snd (round_robin valid (\<lambda>k. clk (Suc k)) n (snd ?r)))
              (ip (interfaces (snd ?r) ! i)) = Some T"
      by (rule Suc.IH) (use keep ifs later in simp_all)
    with True ifs show ?thesis unfolding unfold by simp
  next
    case False
    have "?x \<noteq> i"
    proof
      assume "?x = i"
      then have "fst ?r"
        using Suc.prems(1) now by (simp add: is_interface_failed_def)
      with False show False by simp
    qed
    with False keep show ?thesis unfolding unfold by simp
  qed
qed

text \<open>The loop reaches the candidate \<open>m\<close> places after the cursor when the candidates
  before it are in quarantine at their readings; a stale entry met there is deleted and the
  candidate returned.\<close>

lemma round_robin_reaches:
  assumes ne: "valid \<noteq> []"
    and entry: "failed_interfaces lb (ip (interfaces lb ! i)) = Some T"
    and before: "\<forall>k<m. \<exists>T'. failed_interfaces lb
                   (ip (interfaces lb !
                          (valid ! nat ((current_interface_index lb + int k) mod int (length valid)))))
                   = Some T' \<and> clk k - T' \<le> failure_timeout"
    and at: "valid ! nat ((current_interface_index lb + int m) mod int (length valid)) = i"
    and stale: "clk m - T > failure_timeout"
    and m: "m < n"
  shows "round_robin valid clk n lb =
           (Some i, lb\<lparr>current_interface_index :=
                           (current_interface_index lb + int m + 1) mod int (length valid),
                         failed_interfaces :=
                           (failed_interfaces lb)(ip (interfaces lb ! i) := None)\<rparr>)"
  using entry before at stale m
proof (induction m arbitrary: lb clk n)
  case 0
  then obtain n' where n: "n = Suc n'" by (cases n) auto
  let ?lb1 = "lb\<lparr>current_interface_index :=
                     (current_interface_index lb + 1) mod int (length valid)\<rparr>"
  have x: "valid ! nat (current_interface_index lb mod int (length valid)) = i"
    using "0.prems"(3) by simp
  have "is_interface_failed ?lb1 (interfaces ?lb1 ! i) (clk 0) =
          (False, ?lb1\<lparr>failed_interfaces :=
                          (failed_interfaces ?lb1)(ip (interfaces ?lb1 ! i) := None)\<rparr>)"
    using "0.prems"(1,4) by (simp add: is_interface_failed_def)
  then have "round_robin valid clk (Suc n') lb =
          (Some i, ?lb1\<lparr>failed_interfaces :=
                          (failed_interfaces ?lb1)(ip (interfaces ?lb1 ! i) := None)\<rparr>)"
    by (simp add: Let_def x)
  then show ?case
    unfolding n by (simp add: fun_upd_def)
next
  case (Suc m)
  let ?K = "int (length valid)"
  let ?c = "current_interface_index lb"
  let ?x = "valid ! nat (?c mod ?K)"
  let ?lb1 = "lb\<lparr>current_interface_index := (?c + 1) mod ?K\<rparr>"
  from Suc.prems(5) obtain n' where n: "n = Suc n'" and m': "m < n'" by (cases n) auto
  from Suc.prems(2) [rule_format, of 0] obtain T' where
    T': "failed_interfaces lb (ip (interfaces lb ! ?x)) = Some T'" "clk 0 - T' \<le> failure_timeout"
    by auto
  have step: "is_interface_failed ?lb1 (interfaces ?lb1 ! ?x) (clk 0) = (True, ?lb1)"
    using T' by (simp add: is_interface_failed_def)
  have unfold: "round_robin valid clk n lb = round_robin valid (\<lambda>k. clk (Suc k)) n' ?lb1"
    unfolding n using step by (simp add: Let_def)
  have shift: "((?c + 1) mod ?K + int k) mod ?K = (?c + int (Suc k)) mod ?K" for k
    by (simp add: mod_add_left_eq add.assoc)
  have e1: "failed_interfaces ?lb1 (ip (interfaces ?lb1 ! i)) = Some T"
    using Suc.prems(1) by simp
  have b1: "\<forall>k<m. \<exists>T'. failed_interfaces ?lb1
                   (ip (interfaces ?lb1 !
                          (valid ! nat ((current_interface_index ?lb1 + int k) mod ?K))))
                   = Some T' \<and> clk (Suc k) - T' \<le> failure_timeout"
  proof (intro allI impI)
    fix k assume "k < m"
    then have "Suc k < Suc m" by simp
    from Suc.prems(2) [rule_format, OF this] show "\<exists>T'. failed_interfaces ?lb1
                   (ip (interfaces ?lb1 !
                          (valid ! nat ((current_interface_index ?lb1 + int k) mod ?K))))
                   = Some T' \<and> clk (Suc k) - T' \<le> failure_timeout"
      by (simp add: shift del: of_nat_Suc)
  qed
  have a1: "valid ! nat ((current_interface_index ?lb1 + int m) mod ?K) = i"
    using Suc.prems(3) by (simp add: shift del: of_nat_Suc)
  have s1: "clk (Suc m) - T > failure_timeout" by (rule Suc.prems(4))
  have fin: "(current_interface_index ?lb1 + int m + 1) mod ?K = (?c + int (Suc m) + 1) mod ?K"
    by (simp add: mod_add_left_eq add.assoc)
  show ?case
    unfolding unfold Suc.IH [of ?lb1 "\<lambda>k. clk (Suc k)" n', OF e1 b1 a1 s1 m'] fin
    by (simp add: fun_upd_def)
qed

text \<open>A loop that returns an interface deletes at most that interface's entry.\<close>

lemma round_robin_deletes_only_returned:
  assumes "fst (round_robin valid clk n lb) = Some j"
  shows "failed_interfaces (snd (round_robin valid clk n lb)) = failed_interfaces lb
         \<or> failed_interfaces (snd (round_robin valid clk n lb))
              = (failed_interfaces lb)(ip (interfaces lb ! j) := None)"
  using assms
proof (induction n arbitrary: lb clk)
  case 0
  then show ?case by simp
next
  case (Suc n)
  let ?K = "int (length valid)"
  let ?x = "valid ! nat (current_interface_index lb mod ?K)"
  let ?lb1 = "lb\<lparr>current_interface_index := (current_interface_index lb + 1) mod ?K\<rparr>"
  let ?r = "is_interface_failed ?lb1 (interfaces ?lb1 ! ?x) (clk 0)"
  have unfold: "round_robin valid clk (Suc n) lb =
          (if \<not> fst ?r then (Some ?x, snd ?r) else round_robin valid (\<lambda>k. clk (Suc k)) n (snd ?r))"
    by (simp add: Let_def split_beta)
  show ?case
  proof (cases "fst ?r")
    case True
    then have same: "snd ?r = ?lb1"
      by (auto simp: is_interface_failed_def split: option.splits if_splits)
    from Suc.prems True have "fst (round_robin valid (\<lambda>k. clk (Suc k)) n ?lb1) = Some j"
      unfolding unfold same by simp
    from Suc.IH [OF this] True show ?thesis unfolding unfold same by (simp add: fun_upd_def)
  next
    case False
    with Suc.prems have j: "j = ?x" unfolding unfold by simp
    have "failed_interfaces (snd ?r) = failed_interfaces lb
          \<or> failed_interfaces (snd ?r) = (failed_interfaces lb)(ip (interfaces lb ! ?x) := None)"
      by (auto simp: is_interface_failed_def split: option.splits)
    moreover have rr: "round_robin valid clk (Suc n) lb = (Some ?x, snd ?r)"
      using False unfolding unfold by simp
    ultimately show ?thesis unfolding rr j by (simp add: fun_upd_def)
  qed
qed



text \<open>
  Claim C4, as amended (quarantine window, lazy eviction). Let the ip of interface \<open>i\<close> be
  in quarantine since \<open>T\<close>. If every clock reading of a call of \<open>get_best_interface\<close> is at
  most 5 seconds after \<open>T\<close>, the call returns \<open>i\<close> only through the panic reset (the loop
  found nothing, both maps are cleared, \<open>i\<close> is the first candidate). At a reading more
  than 5 seconds after \<open>T\<close>, \<open>is_interface_failed\<close> deletes the entry and answers no.
  A call whose loop reaches \<open>i\<close> (it stands \<open>m\<close> places after the cursor, and the candidates
  before it are in quarantine at their readings) at such a reading returns \<open>i\<close> with the
  entry deleted and the cursor one past \<open>i\<close>. A call that returns an interface of another
  ip without a panic reset leaves the entry of \<open>i\<close> as it was, stale or not.
\<close>

theorem quarantine_window:
  assumes "failed_interfaces lb (ip (interfaces lb ! i)) = Some T"
  shows "((\<forall>k<length (valid_interfaces lb). clk k - T \<le> 5) \<longrightarrow>
            (\<forall>lb'. get_best_interface lb clk = Inr (i, lb') \<longrightarrow>
               fst (round_robin (valid_interfaces lb) clk (length (valid_interfaces lb)) lb) = None
               \<and> i = valid_interfaces lb ! 0
               \<and> failed_interfaces lb' = Map.empty \<and> consecutive_failures lb' = Map.empty))
    \<and> (t - T > 5 \<longrightarrow>
          is_interface_failed lb (interfaces lb ! i) t =
            (False, lb\<lparr>failed_interfaces :=
                         (failed_interfaces lb)(ip (interfaces lb ! i) := None)\<rparr>))
    \<and> (m < length (valid_interfaces lb)
        \<and> (\<forall>k<m. \<exists>T'. failed_interfaces lb
               (ip (interfaces lb !
                      (valid_interfaces lb !
                         nat ((current_interface_index lb + int k)
                                mod int (length (valid_interfaces lb))))))
               = Some T' \<and> clk k - T' \<le> 5)
        \<and> valid_interfaces lb !
             nat ((current_interface_index lb + int m)
                    mod int (length (valid_interfaces lb))) = i
        \<and> clk m - T > 5 \<longrightarrow>
          get_best_interface lb clk =
            Inr (i, lb\<lparr>current_interface_index :=
                          (current_interface_index lb + int m + 1)
                            mod int (length (valid_interfaces lb)),
                        failed_interfaces :=
                          (failed_interfaces lb)(ip (interfaces lb ! i) := None)\<rparr>))
    \<and> (\<forall>j lb'. get_best_interface lb clk = Inr (j, lb')
          \<and> fst (round_robin (valid_interfaces lb) clk (length (valid_interfaces lb)) lb) \<noteq> None
          \<and> ip (interfaces lb ! j) \<noteq> ip (interfaces lb ! i) \<longrightarrow>
          failed_interfaces lb' (ip (interfaces lb ! i)) = Some T)"
proof (intro conjI impI allI)
  fix lb'
  assume le: "\<forall>k<length (valid_interfaces lb). clk k - T \<le> 5"
    and sel: "get_best_interface lb clk = Inr (i, lb')"
  let ?r = "round_robin (valid_interfaces lb) clk (length (valid_interfaces lb)) lb"
  from le have "\<forall>k<length (valid_interfaces lb). clk k - T \<le> failure_timeout"
    by (simp add: failure_timeout_def)
  from round_robin_skips_quarantined [OF assms this]
  have no: "fst ?r \<noteq> Some i" by blast
  with get_best_interface_Inr [OF sel]
  show "fst ?r = None" and "i = valid_interfaces lb ! 0"
    and "failed_interfaces lb' = Map.empty" and "consecutive_failures lb' = Map.empty"
    by auto
next
  assume "t - T > 5"
  with assms show "is_interface_failed lb (interfaces lb ! i) t =
            (False, lb\<lparr>failed_interfaces :=
                         (failed_interfaces lb)(ip (interfaces lb ! i) := None)\<rparr>)"
    by (simp add: is_interface_failed_def failure_timeout_def)
next
  let ?v = "valid_interfaces lb"
  assume a: "m < length ?v
        \<and> (\<forall>k<m. \<exists>T'. failed_interfaces lb
               (ip (interfaces lb !
                      (?v ! nat ((current_interface_index lb + int k) mod int (length ?v)))))
               = Some T' \<and> clk k - T' \<le> 5)
        \<and> ?v ! nat ((current_interface_index lb + int m) mod int (length ?v)) = i
        \<and> clk m - T > 5"
  then have ne: "?v \<noteq> []" by auto
  from a have before: "\<forall>k<m. \<exists>T'. failed_interfaces lb
               (ip (interfaces lb !
                      (?v ! nat ((current_interface_index lb + int k) mod int (length ?v)))))
               = Some T' \<and> clk k - T' \<le> failure_timeout"
    by (simp add: failure_timeout_def)
  from a have at: "?v ! nat ((current_interface_index lb + int m) mod int (length ?v)) = i"
    and stale: "clk m - T > failure_timeout" and m: "m < length ?v"
    by (simp_all add: failure_timeout_def)
  have "round_robin ?v clk (length ?v) lb =
           (Some i, lb\<lparr>current_interface_index :=
                           (current_interface_index lb + int m + 1) mod int (length ?v),
                         failed_interfaces :=
                           (failed_interfaces lb)(ip (interfaces lb ! i) := None)\<rparr>)"
    by (rule round_robin_reaches [OF ne assms before at stale m])
  then show "get_best_interface lb clk =
            Inr (i, lb\<lparr>current_interface_index :=
                          (current_interface_index lb + int m + 1) mod int (length ?v),
                        failed_interfaces :=
                          (failed_interfaces lb)(ip (interfaces lb ! i) := None)\<rparr>)"
    using ne valid_interfaces_nonempty_interfaces [OF ne]
    by (simp add: get_best_interface_def Let_def)
next
  fix j lb'
  let ?r = "round_robin (valid_interfaces lb) clk (length (valid_interfaces lb)) lb"
  assume a: "get_best_interface lb clk = Inr (j, lb') \<and> fst ?r \<noteq> None
          \<and> ip (interfaces lb ! j) \<noteq> ip (interfaces lb ! i)"
  then have sel: "get_best_interface lb clk = Inr (j, lb')" by blast
  from get_best_interface_Inr [OF sel] a have j: "fst ?r = Some j" and lb': "lb' = snd ?r"
    by auto
  from round_robin_deletes_only_returned [OF j]
  have "failed_interfaces lb' = failed_interfaces lb
        \<or> failed_interfaces lb' = (failed_interfaces lb)(ip (interfaces lb ! j) := None)"
    unfolding lb' .
  with a assms show "failed_interfaces lb' (ip (interfaces lb ! i)) = Some T" by auto
qed

lemma valid_interfaces_lb_A_stale_cursor_B: "valid_interfaces lb_A_stale_cursor_B = [0, 1]"
  by (simp add: valid_interfaces_def lb_A_stale_cursor_B_def lb_A_quarantined_def
      startswith_def upt_conv_Cons)

lemma valid_interfaces_lb_A_stale_B_recent: "valid_interfaces lb_A_stale_B_recent = [0, 1]"
  by (simp add: valid_interfaces_def lb_A_stale_B_recent_def startswith_def upt_conv_Cons)

lemma select_lb_A_stale_cursor_B:
  "get_best_interface lb_A_stale_cursor_B clock_200 =
     Inr (1, lb_A_stale_cursor_B\<lparr>current_interface_index := 0\<rparr>)"
  unfolding get_best_interface_def valid_interfaces_lb_A_stale_cursor_B
  by (simp add: Let_def is_interface_failed_def failure_timeout_def lb_A_stale_cursor_B_def
      lb_A_quarantined_def lb_AB_def LoadBalancer_init_def clock_200_def)

text \<open>
  Claim C4 as stated fails: with the cursor on the healthy second interface, a selection
  200 seconds into a quarantine that began at 100 returns the second interface; the first
  one's stale entry is not examined and stays in the map.
\<close>

theorem quarantine_entry_not_evicted_counterexample:
  "clock_200 0 - 100 > 5
   \<and> failed_interfaces lb_A_stale_cursor_B (ip (interfaces lb_A_stale_cursor_B ! 0)) = Some 100
   \<and> get_best_interface lb_A_stale_cursor_B clock_200 =
       Inr (1, lb_A_stale_cursor_B\<lparr>current_interface_index := 0\<rparr>)
   \<and> failed_interfaces (lb_A_stale_cursor_B\<lparr>current_interface_index := 0\<rparr>)
         (ip (interfaces lb_A_stale_cursor_B ! 0)) = Some 100"
  using select_lb_A_stale_cursor_B
  by (simp add: clock_200_def lb_A_stale_cursor_B_def lb_A_quarantined_def)


lemma select_lb_AB_quarantined_clock_105:
  "get_best_interface lb_AB_quarantined clock_105 =
     Inr (0, lb_AB_quarantined\<lparr>current_interface_index := 0,
                failed_interfaces := Map.empty, consecutive_failures := Map.empty\<rparr>)"
  unfolding get_best_interface_def valid_interfaces_lb_AB_quarantined
  by (simp add: Let_def is_interface_failed_def failure_timeout_def lb_AB_quarantined_def
      lb_AB_def LoadBalancer_init_def clock_105_def)

lemma round_robin_lb_A_stale_cursor_B:
  "fst (round_robin (valid_interfaces lb_A_stale_cursor_B) clock_200
          (length (valid_interfaces lb_A_stale_cursor_B)) lb_A_stale_cursor_B) = Some 1"
  unfolding valid_interfaces_lb_A_stale_cursor_B
  by (simp add: Let_def is_interface_failed_def failure_timeout_def lb_A_stale_cursor_B_def
      lb_A_quarantined_def lb_AB_def LoadBalancer_init_def clock_200_def)

theorem quarantine_window_witness:
  "fst (round_robin (valid_interfaces lb_AB_quarantined) clock_105
          (length (valid_interfaces lb_AB_quarantined)) lb_AB_quarantined) = None
   \<and> is_interface_failed lb_A_quarantined (interfaces lb_A_quarantined ! 0) 106 =
       (False, lb_A_quarantined\<lparr>failed_interfaces := Map.empty\<rparr>)
   \<and> get_best_interface lb_A_stale_B_recent clock_200 =
       Inr (0, lb_A_stale_B_recent\<lparr>current_interface_index := 1,
                 failed_interfaces := [''10.0.0.3'' \<mapsto> 198]\<rparr>)
   \<and> failed_interfaces (lb_A_stale_cursor_B\<lparr>current_interface_index := 0\<rparr>) ''10.0.0.2''
       = Some 100"
proof -
  have q: "failed_interfaces lb_AB_quarantined (ip (interfaces lb_AB_quarantined ! 0)) = Some 100"
    by (simp add: lb_AB_quarantined_def)
  have w: "\<forall>k<length (valid_interfaces lb_AB_quarantined). clock_105 k - 100 \<le> 5"
    by (simp add: clock_105_def)
  have 1: "fst (round_robin (valid_interfaces lb_AB_quarantined) clock_105
          (length (valid_interfaces lb_AB_quarantined)) lb_AB_quarantined) = None"
    using quarantine_window [OF q, of clock_105] w select_lb_AB_quarantined_clock_105
    by blast
  have a: "failed_interfaces lb_A_quarantined (ip (interfaces lb_A_quarantined ! 0)) = Some 100"
    by (simp add: lb_A_quarantined_def)
  have m: "(failed_interfaces lb_A_quarantined)(ip (interfaces lb_A_quarantined ! 0) := None)
             = Map.empty"
    by (simp add: lb_A_quarantined_def)
  have 2: "is_interface_failed lb_A_quarantined (interfaces lb_A_quarantined ! 0) 106 =
       (False, lb_A_quarantined\<lparr>failed_interfaces := Map.empty\<rparr>)"
    using quarantine_window [OF a, where t = 106] unfolding m by simp
  have r: "failed_interfaces lb_A_stale_B_recent (ip (interfaces lb_A_stale_B_recent ! 0)) = Some 100"
    by (simp add: lb_A_stale_B_recent_def)
  have c: "current_interface_index lb_A_stale_B_recent = 1"
    by (simp add: lb_A_stale_B_recent_def)
  have before: "\<forall>k<1. \<exists>T'. failed_interfaces lb_A_stale_B_recent
               (ip (interfaces lb_A_stale_B_recent !
                      (valid_interfaces lb_A_stale_B_recent !
                         nat ((current_interface_index lb_A_stale_B_recent + int k)
                                mod int (length (valid_interfaces lb_A_stale_B_recent))))))
               = Some T' \<and> clock_200 k - T' \<le> 5"
    unfolding valid_interfaces_lb_A_stale_B_recent c
    by (simp add: lb_A_stale_B_recent_def clock_200_def)
  have at: "valid_interfaces lb_A_stale_B_recent !
             nat ((current_interface_index lb_A_stale_B_recent + int 1)
                    mod int (length (valid_interfaces lb_A_stale_B_recent))) = 0"
    by (simp add: valid_interfaces_lb_A_stale_B_recent c)
  have len: "(1::nat) < length (valid_interfaces lb_A_stale_B_recent)"
    by (simp add: valid_interfaces_lb_A_stale_B_recent)
  have stale: "clock_200 1 - 100 > 5" by (simp add: clock_200_def)
  have upd: "(failed_interfaces lb_A_stale_B_recent)
               (ip (interfaces lb_A_stale_B_recent ! 0) := None) = [''10.0.0.3'' \<mapsto> 198]"
    by (auto simp: lb_A_stale_B_recent_def)
  have 3: "get_best_interface lb_A_stale_B_recent clock_200 =
       Inr (0, lb_A_stale_B_recent\<lparr>current_interface_index := 1,
                 failed_interfaces := [''10.0.0.3'' \<mapsto> 198]\<rparr>)"
    using quarantine_window [OF r, where m = 1 and clk = clock_200] len before at stale
    unfolding upd by (simp add: valid_interfaces_lb_A_stale_B_recent c)
  have s: "failed_interfaces lb_A_stale_cursor_B (ip (interfaces lb_A_stale_cursor_B ! 0)) = Some 100"
    by (simp add: lb_A_stale_cursor_B_def lb_A_quarantined_def)
  have d: "ip (interfaces lb_A_stale_cursor_B ! 1) \<noteq> ip (interfaces lb_A_stale_cursor_B ! 0)"
    by (simp add: lb_A_stale_cursor_B_def lb_A_quarantined_def)
  have i0: "ip (interfaces lb_A_stale_cursor_B ! 0) = ''10.0.0.2''"
    by (simp add: lb_A_stale_cursor_B_def lb_A_quarantined_def)
  have 4: "failed_interfaces (lb_A_stale_cursor_B\<lparr>current_interface_index := 0\<rparr>) ''10.0.0.2''
       = Some 100"
    using quarantine_window [OF s, of clock_200] select_lb_A_stale_cursor_B
      round_robin_lb_A_stale_cursor_B d
    unfolding i0 by (metis option.distinct(1))
  from 1 2 3 4 show ?thesis by blast
qed

section \<open>Properties of the request head parser\<close>

lemma split_where_nonempty [simp]: "split_where P s \<noteq> []"
  by (induction s) (auto split: list.splits)

lemma length_split_where: "length (split_where P s) = Suc (length (filter P s))"
  by (induction s) (auto split: list.splits)

lemma split_where_none: "\<forall>c\<in>set s. \<not> P c \<Longrightarrow> split_where P s = [s]"
  by (induction s) auto

lemma split_where_first:
  "\<forall>c\<in>set h. \<not> P c \<Longrightarrow> P x \<Longrightarrow> split_where P (h @ x # t) = h # split_where P t"
  by (induction h) auto

lemma split_where_head: "\<exists>ls. split_where P s = takeWhile (\<lambda>c. \<not> P c) s # ls"
  by (induction s) (auto split: list.splits)

lemma startswith_append: "startswith (sub @ post) sub"
  by (simp add: startswith_def)

lemma find_at_absent:
  "\<forall>pre post. s \<noteq> pre @ sub @ post \<Longrightarrow> find_at s sub i = - 1"
proof (induction s arbitrary: i)
  case Nil
  then show ?case by auto
next
  case (Cons c cs)
  have no: "\<not> startswith (c # cs) sub"
  proof
    assume "startswith (c # cs) sub"
    then have "c # cs = [] @ sub @ drop (length sub) (c # cs)"
      unfolding startswith_def by (metis append_Nil append_take_drop_id)
    with Cons.prems show False by blast
  qed
  have "\<forall>pre post. cs \<noteq> pre @ sub @ post"
  proof (intro allI notI)
    fix pre post assume "cs = pre @ sub @ post"
    then have "c # cs = (c # pre) @ sub @ post" by simp
    with Cons.prems show False by blast
  qed
  from Cons.IH [OF this] no show ?case by simp
qed

lemma find_at_first:
  assumes "s = pre @ sub @ post"
    and "\<forall>k<length pre. \<not> startswith (drop k s) sub"
  shows "find_at s sub i = int (i + length pre)"
  using assms
proof (induction pre arbitrary: s i)
  case Nil
  show ?case
  proof (cases s)
    case Nil
    with Nil.prems show ?thesis by simp
  next
    case (Cons c cs)
    have "startswith s sub" using Nil.prems(1) by (simp add: startswith_append)
    with Cons show ?thesis by simp
  qed
next
  case (Cons c pre)
  let ?cs = "pre @ sub @ post"
  have s: "s = c # ?cs" using Cons.prems(1) by simp
  have "\<not> startswith (drop 0 s) sub" using Cons.prems(2) by blast
  then have no: "\<not> startswith (c # ?cs) sub" using s by simp
  have "\<forall>k<length pre. \<not> startswith (drop k ?cs) sub"
  proof (intro allI impI)
    fix k assume "k < length pre"
    then have "\<not> startswith (drop (Suc k) s) sub" using Cons.prems(2) by auto
    then show "\<not> startswith (drop k ?cs) sub" using s by simp
  qed
  from Cons.IH [OF refl this, of "Suc i"] no s show ?case by simp
qed

lemma slice_inside:
  assumes "0 \<le> a" "a \<le> b" "b \<le> int (length s)"
  shows "slice s a b = take (nat (b - a)) (drop (nat a) s)"
  using assms by (simp add: slice_def Let_def min_def)

lemma find_at_result:
  "find_at s sub i = - 1 \<and> (\<forall>pre post. s \<noteq> pre @ sub @ post)
   \<or> (\<exists>n\<le>length s. find_at s sub i = int (i + n) \<and> startswith (drop n s) sub
          \<and> (\<forall>k<n. \<not> startswith (drop k s) sub))"
proof (induction s arbitrary: i)
  case Nil
  then show ?case by (auto simp: startswith_def)
next
  case (Cons c cs)
  show ?case
  proof (cases "startswith (c # cs) sub")
    case True
    then have "find_at (c # cs) sub i = int (i + 0) \<and> startswith (drop 0 (c # cs)) sub
          \<and> (\<forall>k<0. \<not> startswith (drop k (c # cs)) sub)" by simp
    then show ?thesis by blast
  next
    case False
    then have step: "find_at (c # cs) sub i = find_at cs sub (Suc i)" by simp
    from Cons.IH [of "Suc i"] show ?thesis
    proof
      assume a: "find_at cs sub (Suc i) = - 1 \<and> (\<forall>pre post. cs \<noteq> pre @ sub @ post)"
      have "\<forall>pre post. c # cs \<noteq> pre @ sub @ post"
      proof (intro allI notI)
        fix pre post assume eq: "c # cs = pre @ sub @ post"
        show False
        proof (cases pre)
          case Nil
          with eq have "startswith (c # cs) sub" by (simp add: startswith_append)
          with False show False by simp
        next
          case (Cons d pre')
          with eq have "cs = pre' @ sub @ post" by simp
          with a show False by blast
        qed
      qed
      with a step show ?thesis by simp
    next
      assume "\<exists>n\<le>length cs. find_at cs sub (Suc i) = int (Suc i + n)
                \<and> startswith (drop n cs) sub \<and> (\<forall>k<n. \<not> startswith (drop k cs) sub)"
      then obtain n where n: "n \<le> length cs" "find_at cs sub (Suc i) = int (Suc i + n)"
        "startswith (drop n cs) sub" "\<forall>k<n. \<not> startswith (drop k cs) sub" by blast
      have "\<forall>k<Suc n. \<not> startswith (drop k (c # cs)) sub"
      proof (intro allI impI)
        fix k assume "k < Suc n"
        then show "\<not> startswith (drop k (c # cs)) sub"
          using False n(4) by (cases k) simp_all
      qed
      with n step have "Suc n \<le> length (c # cs) \<and> find_at (c # cs) sub i = int (i + Suc n)
          \<and> startswith (drop (Suc n) (c # cs)) sub
          \<and> (\<forall>k<Suc n. \<not> startswith (drop k (c # cs)) sub)" by simp
      then show ?thesis by blast
    qed
  qed
qed

lemma find_at_nonneg_first:
  assumes "find_at s sub 0 = int n"
  shows "\<forall>k<n. \<not> startswith (drop k s) sub"
  using find_at_result [of s sub 0] assms by auto

lemma find_at_neg_absent:
  assumes "find_at s sub 0 = - 1"
  shows "\<forall>pre post. s \<noteq> pre @ sub @ post"
  using find_at_result [of s sub 0] assms by auto

lemma case_three_other:
  "length xs \<noteq> 3 \<Longrightarrow> (case xs of [a, b, c] \<Rightarrow> f a b c | _ \<Rightarrow> d) = d"
  by (auto split: list.splits)

lemma case_two_other:
  "length xs \<noteq> 2 \<Longrightarrow> (case xs of [a, b] \<Rightarrow> f a b | _ \<Rightarrow> d) = d"
  by (auto split: list.splits)

lemma first_line_split:
  "\<exists>ls. split req (CHR 0x0A) = takeWhile (\<lambda>c. c \<noteq> CHR 0x0A) req # ls"
  unfolding split_def using split_where_head [of "\<lambda>c. c = CHR 0x0A" req] by simp

lemma parse_request_bad_line:
  assumes "length (split (strip (takeWhile (\<lambda>c. c \<noteq> CHR 0x0A) req)) CHR '' '') \<noteq> 3"
  shows "parse_request urlparse req = None"
proof -
  obtain ls where ls: "split req (CHR 0x0A) = takeWhile (\<lambda>c. c \<noteq> CHR 0x0A) req # ls"
    using first_line_split by blast
  show ?thesis
    unfolding parse_request_def ls by (simp add: case_three_other [OF assms])
qed

lemma parse_request_connect:
  assumes "split (strip (takeWhile (\<lambda>c. c \<noteq> CHR 0x0A) req)) CHR '' '' = [''CONNECT'', url, protocol]"
  shows "parse_request urlparse req =
           (case split url CHR '':'' of
              [host, port] \<Rightarrow> map_option (\<lambda>p. (''CONNECT'', host, p)) (py_int port)
            | _ \<Rightarrow> None)"
proof -
  obtain ls where ls: "split req (CHR 0x0A) = takeWhile (\<lambda>c. c \<noteq> CHR 0x0A) req # ls"
    using first_line_split by blast
  show ?thesis
    unfolding parse_request_def ls by (simp add: assms)
qed

lemma split_two:
  assumes "sep \<notin> set h" "sep \<notin> set t"
  shows "split (h @ sep # t) sep = [h, t]"
proof -
  have h: "\<forall>c\<in>set h. \<not> c = sep" and t: "\<forall>c\<in>set t. \<not> c = sep"
    using assms by auto
  have "split_where (\<lambda>c. c = sep) (h @ sep # t) = h # split_where (\<lambda>c. c = sep) t"
    by (rule split_where_first [OF h]) simp
  also have "split_where (\<lambda>c. c = sep) t = [t]"
    by (rule split_where_none [OF t])
  finally show ?thesis by (simp add: split_def)
qed

lemma parse_request_connect_ok:
  assumes "split (strip (takeWhile (\<lambda>c. c \<noteq> CHR 0x0A) req)) CHR '' '' = [''CONNECT'', url, protocol]"
    and "url = host @ '':'' @ port" and "CHR '':'' \<notin> set host" and "CHR '':'' \<notin> set port"
  shows "parse_request urlparse req = map_option (\<lambda>p. (''CONNECT'', host, p)) (py_int port)"
  using parse_request_connect [OF assms(1)] split_two [OF assms(3,4)] assms(2) by simp

lemma parse_request_connect_bad:
  assumes "split (strip (takeWhile (\<lambda>c. c \<noteq> CHR 0x0A) req)) CHR '' '' = [''CONNECT'', url, protocol]"
    and "length (filter (\<lambda>c. c = CHR '':'') url) \<noteq> 1"
  shows "parse_request urlparse req = None"
proof -
  have "length (split url CHR '':'') \<noteq> 2"
    using assms(2) by (simp add: split_def length_split_where)
  then show ?thesis
    unfolding parse_request_connect [OF assms(1)] by (rule case_two_other)
qed

lemma parse_request_host:
  assumes line: "split (strip (takeWhile (\<lambda>c. c \<noteq> CHR 0x0A) req)) CHR '' '' = [meth, url, protocol]"
    and m: "meth \<noteq> ''CONNECT''"
    and req: "req = pre @ ''Host: '' @ v @ CRLF @ rest"
    and first: "\<forall>k<length pre. \<not> startswith (drop k req) ''Host: ''"
    and nocr: "\<forall>k<length v. \<not> startswith (drop k (v @ CRLF @ rest)) CRLF"
  shows "parse_request urlparse req = Some (meth, strip v, 80)"
proof -
  obtain ls where ls: "split req (CHR 0x0A) = takeWhile (\<lambda>c. c \<noteq> CHR 0x0A) req # ls"
    using first_line_split by blast
  have f1: "find_from req ''Host: '' 0 = int (length pre)"
    using find_at_first [OF req first, of 0] by (simp add: find_from_def)
  have d: "drop (length pre + 6) req = v @ CRLF @ rest"
    using req by simp
  have len: "length pre + 6 \<le> length req" using req by simp
  have f2: "find_from req CRLF (length pre + 6) = int (length pre + 6 + length v)"
    using find_at_first [OF refl nocr, of "length pre + 6"] len d
    by (simp add: find_from_def)
  have sl: "slice req (int (length pre) + 6) (int (length pre + 6 + length v)) = v"
  proof -
    have "slice req (int (length pre) + 6) (int (length pre + 6 + length v))
            = take (nat (int (length pre + 6 + length v) - (int (length pre) + 6)))
                (drop (nat (int (length pre) + 6)) req)"
      by (rule slice_inside) (use req in simp_all)
    also have "nat (int (length pre) + 6) = length pre + 6" by simp
    also have "nat (int (length pre + 6 + length v) - (int (length pre) + 6)) = length v" by simp
    finally show ?thesis using d by simp
  qed
  have n: "nat (int (length pre) + 6) = length pre + 6" by simp
  show ?thesis
    unfolding parse_request_def ls using m
    by (simp add: line f1 Let_def n f2 sl del: of_nat_add)
qed

lemma parse_request_url:
  assumes line: "split (strip (takeWhile (\<lambda>c. c \<noteq> CHR 0x0A) req)) CHR '' '' = [meth, url, protocol]"
    and m: "meth \<noteq> ''CONNECT''"
    and absent: "\<forall>pre post. req \<noteq> pre @ ''Host: '' @ post"
  shows "parse_request urlparse req =
     (case urlparse url of
        None \<Rightarrow> None
      | Some (netloc, explicit_port) \<Rightarrow>
          Some (meth, netloc,
                (case explicit_port of
                   Some p \<Rightarrow> if p \<noteq> 0 then p else if startswith url ''https'' then 443 else 80
                 | None \<Rightarrow> if startswith url ''https'' then 443 else 80)))"
proof -
  obtain ls where ls: "split req (CHR 0x0A) = takeWhile (\<lambda>c. c \<noteq> CHR 0x0A) req # ls"
    using first_line_split by blast
  have f1: "find_from req ''Host: '' 0 = - 1"
    using find_at_absent [OF absent, of 0] by (simp add: find_from_def)
  show ?thesis
    unfolding parse_request_def ls using m
    by (simp add: line f1 Let_def)
qed

lemma isdigit_not_space: "isdigit c \<Longrightarrow> \<not> int_space c"
  by (auto simp: isdigit_def int_space_def)

lemma isdigit_not_sign: "isdigit c \<Longrightarrow> c \<noteq> CHR ''-'' \<and> c \<noteq> CHR ''+'' \<and> c \<noteq> CHR ''_''"
  by (auto simp: isdigit_def)

lemma digits_tail_plain:
  "\<forall>c\<in>set cs. isdigit c \<Longrightarrow>
     digits_tail acc cs = Some (foldl (\<lambda>a c. 10 * a + digit_value c) acc cs)"
  by (induction cs arbitrary: acc) simp_all

lemma dropWhile_rev_digits:
  assumes "ds \<noteq> []" "\<forall>c\<in>set ds. isdigit c"
  shows "rev (dropWhile int_space (rev (dropWhile int_space ds))) = ds"
proof -
  have "\<not> int_space (hd ds)" using assms by (simp add: isdigit_not_space)
  then have a: "dropWhile int_space ds = ds" using assms(1) by (cases ds) simp_all
  have "\<not> int_space (last ds)" using assms by (simp add: isdigit_not_space)
  then have "\<not> int_space (hd (rev ds))" using assms(1) by (simp add: hd_rev)
  then have "dropWhile int_space (rev ds) = rev ds" using assms(1) by (cases "rev ds") simp_all
  with a show ?thesis by simp
qed

lemma py_int_decimal:
  assumes "ds \<noteq> []" "\<forall>c\<in>set ds. isdigit c" "length ds \<le> 4300"
  shows "py_int ds = Some (int (foldl (\<lambda>a c. 10 * a + digit_value c) 0 ds))"
proof -
  obtain c cs where ds: "ds = c # cs" using assms(1) by (cases ds) auto
  have c: "isdigit c" and cs: "\<forall>x\<in>set cs. isdigit x" using assms(2) ds by simp_all
  have f: "filter isdigit ds = ds" using assms(2) by simp
  have "digits ds = Some (foldl (\<lambda>a c. 10 * a + digit_value c) 0 ds)"
    unfolding digits_def f using assms(3) c digits_tail_plain [OF cs]
    by (simp add: ds int_max_str_digits_def)
  then show ?thesis
    unfolding py_int_def dropWhile_rev_digits [OF assms(1,2)]
    using isdigit_not_sign [OF c] by (simp add: ds)
qed

text \<open>
  Claim C7, as amended. With \<open>first_line\<close> the text before the first newline, stripped:
  unless \<open>first_line\<close> splits at single spaces into exactly three parts, parsing fails.
  For method \<open>CONNECT\<close>, a URL \<open>host:port\<close> with one colon gives that host and \<open>int(port)\<close>
  (parsing fails where \<open>int\<close> does), and a URL without exactly one colon fails; \<open>int\<close> of a
  string of at most 4300 decimal digits is its decimal value. For another method, if the
  text contains \<open>Host: \<close> and a CRLF follows its first occurrence, the host is the text
  between them, stripped, and the port is 80; if the text does not contain \<open>Host: \<close>, the
  host is \<open>netloc\<close> of the parsed URL and the port its explicit non-zero port, else 443
  if the URL text starts with \<open>https\<close>, else 80.
\<close>

theorem parse_request_rules:
  fixes req :: string
  defines "first_line \<equiv> strip (takeWhile (\<lambda>c. c \<noteq> CHR 0x0A) req)"
  shows "(length (split first_line CHR '' '') \<noteq> 3 \<longrightarrow> parse_request urlparse req = None)
    \<and> (split first_line CHR '' '' = [''CONNECT'', url, protocol]
         \<and> url = host @ '':'' @ port \<and> CHR '':'' \<notin> set host \<and> CHR '':'' \<notin> set port \<longrightarrow>
          parse_request urlparse req = map_option (\<lambda>p. (''CONNECT'', host, p)) (py_int port))
    \<and> (split first_line CHR '' '' = [''CONNECT'', url, protocol]
         \<and> length (filter (\<lambda>c. c = CHR '':'') url) \<noteq> 1 \<longrightarrow>
          parse_request urlparse req = None)
    \<and> (ds \<noteq> [] \<and> (\<forall>c\<in>set ds. isdigit c) \<and> length ds \<le> 4300 \<longrightarrow>
          py_int ds = Some (int (foldl (\<lambda>a c. 10 * a + digit_value c) 0 ds)))
    \<and> (split first_line CHR '' '' = [meth, url, protocol] \<and> meth \<noteq> ''CONNECT''
         \<and> req = pre @ ''Host: '' @ v @ CRLF @ rest
         \<and> (\<forall>k<length pre. \<not> startswith (drop k req) ''Host: '')
         \<and> (\<forall>k<length v. \<not> startswith (drop k (v @ CRLF @ rest)) CRLF) \<longrightarrow>
          parse_request urlparse req = Some (meth, strip v, 80))
    \<and> (split first_line CHR '' '' = [meth, url, protocol] \<and> meth \<noteq> ''CONNECT''
         \<and> (\<forall>pre post. req \<noteq> pre @ ''Host: '' @ post) \<longrightarrow>
          parse_request urlparse req =
            (case urlparse url of
               None \<Rightarrow> None
             | Some (netloc, explicit_port) \<Rightarrow>
                 Some (meth, netloc,
                       (case explicit_port of
                          Some p \<Rightarrow> if p \<noteq> 0 then p
                                    else if startswith url ''https'' then 443 else 80
                        | None \<Rightarrow> if startswith url ''https'' then 443 else 80))))"
  unfolding first_line_def
  using parse_request_bad_line [of req urlparse]
    parse_request_connect_ok [of req url protocol host port urlparse]
    parse_request_connect_bad [of req url protocol urlparse]
    py_int_decimal [of ds]
    parse_request_host [of req meth url protocol pre v rest urlparse]
    parse_request_url [of req meth url protocol urlparse]
  by blast

text \<open>
  Claim C7 as stated fails: the head \<open>GET  HTTP/1.1\<close> (two spaces), followed by a
  \<open>Host\<close> header, has two white-space separated tokens in its first line, and is parsed
  all the same, with an empty URL.
\<close>

theorem parse_request_two_spaces_counterexample:
  "length (whitespace_tokens (raw_first_line req_two_spaces)) \<noteq> 3
   \<and> parse_request urlparse_raises req_two_spaces = Some (''GET'', ''example.com'', 80)"
  by (simp add: parse_request_def req_two_spaces_def CRLF_def split_def strip_def isspace_def
      find_from_def startswith_def slice_def Let_def whitespace_tokens_def raw_first_line_def)

lemma first_line_req_connect:
  "split (strip (takeWhile (\<lambda>c. c \<noteq> CHR 0x0A) req_connect)) CHR '' ''
     = [''CONNECT'', ''example.com:443'', ''HTTP/1.1'']"
  by (simp add: req_connect_def CRLF_def split_def strip_def isspace_def)

lemma first_line_req_connect_no_port:
  "split (strip (takeWhile (\<lambda>c. c \<noteq> CHR 0x0A) req_connect_no_port)) CHR '' ''
     = [''CONNECT'', ''example.com'', ''HTTP/1.1'']"
  by (simp add: req_connect_no_port_def CRLF_def split_def strip_def isspace_def)

lemma first_line_req_get:
  "split (strip (takeWhile (\<lambda>c. c \<noteq> CHR 0x0A) req_get)) CHR '' ''
     = [''GET'', ''http://example.com/foo'', ''HTTP/1.1'']"
  by (simp add: req_get_def CRLF_def split_def strip_def isspace_def)

lemma first_line_req_absolute:
  "split (strip (takeWhile (\<lambda>c. c \<noteq> CHR 0x0A) req_absolute)) CHR '' ''
     = [''GET'', ''https://example.com/'', ''HTTP/1.1'']"
  by (simp add: req_absolute_def CRLF_def split_def strip_def isspace_def)

lemma first_line_req_garbage:
  "split (strip (takeWhile (\<lambda>c. c \<noteq> CHR 0x0A) req_garbage)) CHR '' '' = [''hello'']"
  by (simp add: req_garbage_def CRLF_def split_def strip_def isspace_def)

lemma find_host_req_get:
  "find_at req_get ''Host: '' 0 = 37"
  by (simp add: req_get_def CRLF_def startswith_def)

lemma find_crlf_host_value:
  "find_at (''example.com'' @ CRLF @ CRLF) CRLF 0 = 11"
  by (simp add: CRLF_def startswith_def)

lemma find_host_req_absolute:
  "find_at req_absolute ''Host: '' 0 = - 1"
  by (simp add: req_absolute_def CRLF_def startswith_def)

theorem parse_request_rules_witness:
  "parse_request (\<lambda>u. None) req_garbage = None
   \<and> parse_request (\<lambda>u. None) req_connect = Some (''CONNECT'', ''example.com'', 443)
   \<and> parse_request (\<lambda>u. None) req_connect_no_port = None
   \<and> parse_request (\<lambda>u. None) req_get = Some (''GET'', ''example.com'', 80)
   \<and> parse_request (\<lambda>u. Some (''example.com'', None)) req_absolute
        = Some (''GET'', ''example.com'', 443)"
proof -
  have g: "parse_request (\<lambda>u. None) req_garbage = None"
    using parse_request_rules [where req = req_garbage and urlparse = "\<lambda>u. None"]
    by (simp add: first_line_req_garbage)
  have port: "py_int ''443'' = Some 443"
    using parse_request_rules [where ds = "''443''"]
    by (simp add: isdigit_def digit_value_def)
  have c: "parse_request (\<lambda>u. None) req_connect = Some (''CONNECT'', ''example.com'', 443)"
    using parse_request_rules [where req = req_connect and urlparse = "\<lambda>u. None"
        and url = "''example.com:443''" and protocol = "''HTTP/1.1''"
        and host = "''example.com''" and port = "''443''"] port
    by (simp add: first_line_req_connect)
  have n: "parse_request (\<lambda>u. None) req_connect_no_port = None"
    using parse_request_rules [where req = req_connect_no_port and urlparse = "\<lambda>u. None"
        and url = "''example.com''" and protocol = "''HTTP/1.1''"]
    by (simp add: first_line_req_connect_no_port)
  have pre: "\<forall>k<length (''GET http://example.com/foo HTTP/1.1'' @ CRLF).
               \<not> startswith (drop k req_get) ''Host: ''"
    using find_at_nonneg_first [of req_get "''Host: ''" 37] find_host_req_get
    by (simp add: CRLF_def)
  have val: "\<forall>k<length ''example.com''.
               \<not> startswith (drop k (''example.com'' @ CRLF @ CRLF)) CRLF"
    using find_at_nonneg_first [of "''example.com'' @ CRLF @ CRLF" CRLF 11] find_crlf_host_value
    by simp
  have dec: "req_get = (''GET http://example.com/foo HTTP/1.1'' @ CRLF) @ ''Host: ''
               @ ''example.com'' @ CRLF @ CRLF"
    by (simp add: req_get_def)
  have s: "strip ''example.com'' = ''example.com''"
    by (simp add: strip_def isspace_def)
  have h: "parse_request (\<lambda>u. None) req_get = Some (''GET'', ''example.com'', 80)"
    using parse_request_rules [where req = req_get and urlparse = "\<lambda>u. None"
        and meth = "''GET''" and url = "''http://example.com/foo''"
        and protocol = "''HTTP/1.1''"
        and pre = "''GET http://example.com/foo HTTP/1.1'' @ CRLF"
        and v = "''example.com''" and rest = CRLF] first_line_req_get pre val dec s
    by simp
  have absent: "\<forall>pre post. req_absolute \<noteq> pre @ ''Host: '' @ post"
    by (rule find_at_neg_absent [OF find_host_req_absolute])
  have u: "parse_request (\<lambda>u. Some (''example.com'', None)) req_absolute
        = Some (''GET'', ''example.com'', 443)"
    using parse_request_rules [where req = req_absolute
        and urlparse = "\<lambda>u. Some (''example.com'', None)"
        and meth = "''GET''" and url = "''https://example.com/''"
        and protocol = "''HTTP/1.1''"] first_line_req_absolute absent
    by (simp add: startswith_def)
  from g c n h u show ?thesis by blast
qed

text \<open>Where no CRLF follows \<open>Host: \<close>, \<open>find\<close> answers \<open>-1\<close> and the slice loses the last
  character of the text.\<close>

lemma parse_request_lf_only:
  "parse_request (\<lambda>u. None) req_lf_only = Some (''GET'', ''example.co'', 80)"
  by (simp add: parse_request_def req_lf_only_def CRLF_def split_def strip_def isspace_def
      find_from_def startswith_def slice_def Let_def)

section \<open>Properties of the forwarding pump and the session\<close>

text \<open>A pump that returns, returns the number of bytes it handed to the writer since it
  started counting.\<close>

lemma forward_loop_total:
  "forward_loop es b = (Returned n, out) \<Longrightarrow> n = b + length out"
proof (induction es b arbitrary: n out rule: forward_loop.induct)
  case (2 data w es bytes_count)
  show ?case
  proof (cases "data = []")
    case True
    with "2.prems" show ?thesis by simp
  next
    case False
    show ?thesis
    proof (cases w)
      case Written
      obtain r o' where r: "forward_loop es (bytes_count + length data) = (r, o')"
        by (cases "forward_loop es (bytes_count + length data)")
      with "2.prems" False Written have "r = Returned n" and "out = data @ o'" by simp_all
      with "2.IH" [OF False Written] r show ?thesis by simp
    qed (use "2.prems" False in auto)
  qed
qed simp_all

lemma map_ip_mark_interface_failed [simp]:
  "map ip (interfaces (mark_interface_failed lb i t1 t2)) = map ip (interfaces lb)"
proof -
  have "(map ip (interfaces lb))[i := ip (interfaces lb ! i)] = map ip (interfaces lb)"
    by (cases "i < length (interfaces lb)") (simp_all add: list_update_same_conv list_update_beyond)
  then show ?thesis
    by (simp add: mark_interface_failed_def Let_def map_update mark_request_failed_def)
qed






lemma run_ops_append: "run_ops lb (a @ b) = run_ops (run_ops lb a) b"
  by (simp add: run_ops_def)

lemma select_as_op:
  "get_best_interface lb clk = Inr (i, lb') \<Longrightarrow> lb' = run_ops lb [Select clk]"
  by (simp add: run_ops_def)

lemma mark_as_op:
  "i < length (interfaces lb) \<Longrightarrow>
     mark_interface_failed lb i t1 t2 = run_ops lb [MarkFailed i t1 t2]"
  by (simp add: run_ops_def)

lemma crash_as_op:
  "i < length (interfaces lb) \<Longrightarrow>
     crash env lb i = run_ops lb [MarkFailed i (fst (env_crash_clock env)) (snd (env_crash_clock env))]"
  by (simp add: run_ops_def crash_def)

lemma release_as_op:
  "i < length (interfaces lb) \<Longrightarrow> release lb i = run_ops lb [Release i]"
  by (simp add: run_ops_def release_def)

lemma connect_loop_as_ops:
  assumes "i < length (interfaces lb)"
  shows "\<exists>lb' j ops. (connect_loop env n k lb i = Connected lb' j
                       \<or> connect_loop env n k lb i = Exhausted lb' j
                       \<or> connect_loop env n k lb i = SelectionRaised lb' j)
            \<and> lb' = run_ops lb ops \<and> j < length (interfaces lb)"
  using assms
proof (induction n arbitrary: k lb i)
  case 0
  have "connect_loop env 0 k lb i = Exhausted lb i \<and> lb = run_ops lb [] \<and> i < length (interfaces lb)"
    using "0.prems" by (simp add: run_ops_def)
  then show ?case by blast
next
  case (Suc n)
  let ?t1 = "fst (env_fail_clock env k)" and ?t2 = "snd (env_fail_clock env k)"
  let ?lb1 = "mark_interface_failed lb i ?t1 ?t2"
  have lb1: "?lb1 = run_ops lb [MarkFailed i ?t1 ?t2]" by (rule mark_as_op [OF Suc.prems])
  show ?case
  proof (cases "env_connect_ok env k i")
    case True
    then have "connect_loop env (Suc n) k lb i = Connected lb i \<and> lb = run_ops lb []
                 \<and> i < length (interfaces lb)"
      using Suc.prems by (simp add: run_ops_def)
    then show ?thesis by blast
  next
    case False
    show ?thesis
    proof (cases "get_best_interface ?lb1 (env_select_clock env (Suc k))")
      case (Inl e)
      with False have "connect_loop env (Suc n) k lb i = SelectionRaised ?lb1 i"
        by (simp add: Let_def)
      with lb1 Suc.prems show ?thesis by metis
    next
      case (Inr r)
      obtain j lb2 where r: "r = (j, lb2)" by (cases r)
      have sel: "get_best_interface ?lb1 (env_select_clock env (Suc k)) = Inr (j, lb2)"
        using Inr r by simp
      have lb2: "lb2 = run_ops lb [MarkFailed i ?t1 ?t2, Select (env_select_clock env (Suc k))]"
        using sel Suc.prems by (simp add: run_ops_def)
      have j: "j < length (interfaces lb2)"
        using get_best_interface_bound [OF sel] get_best_interface_interfaces [OF sel] by simp
      have len: "length (interfaces lb2) = length (interfaces lb)"
        unfolding lb2 by simp
      from Suc.IH [OF j, of "Suc k"] obtain lb' j' ops where
        res: "connect_loop env n (Suc k) lb2 j = Connected lb' j'
              \<or> connect_loop env n (Suc k) lb2 j = Exhausted lb' j'
              \<or> connect_loop env n (Suc k) lb2 j = SelectionRaised lb' j'"
        and lb': "lb' = run_ops lb2 ops" and j': "j' < length (interfaces lb2)" by blast
      have step: "connect_loop env (Suc n) k lb i = connect_loop env n (Suc k) lb2 j"
        using False sel by (simp add: Let_def)
      have "lb' = run_ops lb ([MarkFailed i ?t1 ?t2, Select (env_select_clock env (Suc k))] @ ops)"
        unfolding lb' lb2 run_ops_append ..
      with res step j' len show ?thesis by metis
    qed
  qed
qed

lemma reach_release:
  assumes "\<exists>ops. lb' = run_ops lb ops" and "j < length (interfaces lb)"
  shows "\<exists>ops. release lb' j = run_ops lb ops"
proof -
  from assms(1) obtain ops where lb': "lb' = run_ops lb ops" by blast
  then have "j < length (interfaces lb')" using assms(2) by simp
  then have "release lb' j = run_ops lb (ops @ [Release j])"
    unfolding run_ops_append lb' [symmetric] by (rule release_as_op)
  then show ?thesis by blast
qed

lemma reach_crash:
  assumes "\<exists>ops. lb' = run_ops lb ops" and "j < length (interfaces lb)"
  shows "\<exists>ops. crash env lb' j = run_ops lb ops"
proof -
  from assms(1) obtain ops where lb': "lb' = run_ops lb ops" by blast
  then have "j < length (interfaces lb')" using assms(2) by simp
  then have "crash env lb' j =
      run_ops lb (ops @ [MarkFailed j (fst (env_crash_clock env)) (snd (env_crash_clock env))])"
    unfolding run_ops_append lb' [symmetric] by (rule crash_as_op)
  then show ?thesis by blast
qed

lemma reach_tunnel:
  fixes lb lb1 :: LoadBalancer and j :: nat and b :: int and r t :: real
  assumes "\<exists>ops. lb1 = run_ops lb ops" and "j < length (interfaces lb)"
  defines "lb2 \<equiv> lb1\<lparr>interfaces := (interfaces lb1)[j := update_stats (interfaces lb1 ! j) b r]\<rparr>"
  defines "lb3 \<equiv> report_stats lb2 t"
  shows "\<exists>ops. lb3\<lparr>interfaces := (interfaces lb3)[j := mark_request_success (interfaces lb3 ! j)]\<rparr>
                 = run_ops lb ops"
proof -
  from assms(1) obtain ops where lb1: "lb1 = run_ops lb ops" by blast
  then have j: "j < length (interfaces lb1)" using assms(2) by simp
  have "lb3\<lparr>interfaces := (interfaces lb3)[j := mark_request_success (interfaces lb3 ! j)]\<rparr>
          = run_ops lb1 [UpdateStats j b r, ReportStats t, MarkSuccess j]"
    using j by (simp add: run_ops_def lb2_def lb3_def report_stats_def)
  then have "lb3\<lparr>interfaces := (interfaces lb3)[j := mark_request_success (interfaces lb3 ! j)]\<rparr>
          = run_ops lb (ops @ [UpdateStats j b r, ReportStats t, MarkSuccess j])"
    unfolding run_ops_append lb1 [symmetric] .
  then show ?thesis by blast
qed

text \<open>A session changes the engine only through the atomic operations.\<close>

lemma handle_client_as_ops:
  "\<exists>ops. lb_after (handle_client env lb) = run_ops lb ops"
proof (cases "get_best_interface lb (env_select_clock env 0)")
  case (Inl e)
  then have "lb_after (handle_client env lb) = run_ops lb []"
    by (simp add: handle_client_def run_ops_def)
  then show ?thesis by blast
next
  case (Inr r)
  obtain i lb0 where r: "r = (i, lb0)" by (cases r)
  have sel: "get_best_interface lb (env_select_clock env 0) = Inr (i, lb0)"
    using Inr r by simp
  have r0: "\<exists>ops. lb0 = run_ops lb ops"
    using select_as_op [OF sel] by blast
  have i: "i < length (interfaces lb)"
    by (rule get_best_interface_bound [OF sel])
  have len0: "length (interfaces lb0) = length (interfaces lb)"
    using get_best_interface_interfaces [OF sel] by simp
  show ?thesis
  proof (cases "env_head env")
    case HeadTimeout
    with sel have "lb_after (handle_client env lb) = release lb0 i"
      by (simp add: handle_client_def)
    with reach_release [OF r0 i] show ?thesis by simp
  next
    case HeadError
    with sel have "lb_after (handle_client env lb) = release (crash env lb0 i) i"
      by (simp add: handle_client_def)
    with reach_release [OF reach_crash [OF r0 i] i] show ?thesis by simp
  next
    case (HeadData request_data)
    show ?thesis
    proof (cases "parse_request (env_urlparse env) (env_decode env request_data)")
      case None
      with sel HeadData have "lb_after (handle_client env lb) = release lb0 i"
        by (simp add: handle_client_def)
      with reach_release [OF r0 i] show ?thesis by simp
    next
      case (Some q)
      obtain m h p where q: "q = (m, h, p)" by (cases q)
      from connect_loop_as_ops [of i lb0 env "length (interfaces lb0)" 0] i len0
      obtain lb1 j ops where
        res: "connect_loop env (length (interfaces lb0)) 0 lb0 i = Connected lb1 j
              \<or> connect_loop env (length (interfaces lb0)) 0 lb0 i = Exhausted lb1 j
              \<or> connect_loop env (length (interfaces lb0)) 0 lb0 i = SelectionRaised lb1 j"
        and lb1: "lb1 = run_ops lb0 ops" and j0: "j < length (interfaces lb0)" by auto
      from r0 obtain ops0 where "lb0 = run_ops lb ops0" by blast
      with lb1 have "lb1 = run_ops lb (ops0 @ ops)" by (simp add: run_ops_append)
      then have r1: "\<exists>ops. lb1 = run_ops lb ops" by blast
      have j: "j < length (interfaces lb)" using j0 len0 by simp
      from res show ?thesis
      proof (elim disjE)
        assume c: "connect_loop env (length (interfaces lb0)) 0 lb0 i = Connected lb1 j"
        let ?rt = "env_end_time env - env_start_time env"
        let ?lb2 = "lb1\<lparr>interfaces := (interfaces lb1)[j := update_stats (interfaces lb1 ! j) 0 ?rt]\<rparr>"
        let ?lb3 = "report_stats ?lb2 (env_report_time env)"
        let ?lb4 = "?lb3\<lparr>interfaces := (interfaces ?lb3)[j := mark_request_success (interfaces ?lb3 ! j)]\<rparr>"
        have "lb_after (handle_client env lb) = release ?lb4 j"
          using sel HeadData Some q c by (simp add: handle_client_def Let_def)
        with reach_release [OF reach_tunnel [OF r1 j] j] show ?thesis by simp
      next
        assume c: "connect_loop env (length (interfaces lb0)) 0 lb0 i = Exhausted lb1 j"
        have "lb_after (handle_client env lb)
                = release (if env_drain_ok env then lb1 else crash env lb1 j) j"
          using sel HeadData Some q c by (simp add: handle_client_def Let_def)
        with reach_release [OF r1 j] reach_release [OF reach_crash [OF r1 j] j]
        show ?thesis by (cases "env_drain_ok env") simp_all
      next
        assume c: "connect_loop env (length (interfaces lb0)) 0 lb0 i = SelectionRaised lb1 j"
        have "lb_after (handle_client env lb) = release (crash env lb1 j) j"
          using sel HeadData Some q c by (simp add: handle_client_def Let_def)
        with reach_release [OF reach_crash [OF r1 j] j] show ?thesis by simp
      qed
    qed
  qed
qed

text \<open>
  Claim C9 (\<open>active_connections\<close> is always 0). The only assignment to the counter is the
  clamped decrement of the teardown, and the constructor sets it to 0: if it is 0 on every
  interface, it is 0 on every interface after any sequence of operations and after any
  session, whatever the world does; on a new interface it is 0, also after a teardown.
\<close>

theorem active_connections_zero:
  assumes "\<forall>x\<in>set (interfaces lb). active_connections x = 0"
  shows "(\<forall>x\<in>set (interfaces (run_ops lb ops)). active_connections x = 0)
    \<and> (\<forall>x\<in>set (interfaces (lb_after (handle_client env lb))). active_connections x = 0)
    \<and> active_connections (NetworkInterface_init n a) = 0
    \<and> active_connections (release_connection (NetworkInterface_init n a)) = 0"
proof -
  have all: "\<forall>x\<in>set (interfaces (run_ops lb ops')). active_connections x = 0" for ops'
  proof (rule run_ops_pointwise [OF assms])
    show "active_connections (update_stats x b r) = 0" if "active_connections x = 0" for x b r
      using that by (simp add: update_stats_def Let_def)
    show "active_connections (mark_request_success x) = 0" if "active_connections x = 0" for x
      using that by (simp add: mark_request_success_def)
    show "active_connections (release_connection x) = 0" if "active_connections x = 0" for x
      using that by (simp add: release_connection_def)
    show "active_connections ((mark_request_failed x)\<lparr>last_failure := Some t, status := st\<rparr>) = 0"
      if "active_connections x = 0" for x t st
      using that by (simp add: mark_request_failed_def)
  qed
  obtain ops' where "lb_after (handle_client env lb) = run_ops lb ops'"
    using handle_client_as_ops by blast
  with all [of ops'] all [of ops] show ?thesis
    by (simp add: NetworkInterface_init_def release_connection_def)
qed

lemma handle_client_length [simp]:
  "length (interfaces (lb_after (handle_client env lb))) = length (interfaces lb)"
proof -
  obtain ops where "lb_after (handle_client env lb) = run_ops lb ops"
    using handle_client_as_ops by blast
  then show ?thesis by simp
qed

lemma select_lb_AB:
  "get_best_interface lb_AB clk = Inr (0, lb_AB\<lparr>current_interface_index := 1\<rparr>)"
proof -
  have h1: "valid_interfaces lb_AB \<noteq> []" by (simp add: valid_interfaces_lb_AB)
  have h2: "\<forall>i\<in>set (valid_interfaces lb_AB).
              failed_interfaces lb_AB (ip (interfaces lb_AB ! i)) = None"
    by (simp add: lb_AB_def LoadBalancer_init_def)
  have c: "current_interface_index lb_AB = 0" by (simp add: lb_AB_def LoadBalancer_init_def)
  show ?thesis
    using select_healthy [OF h1 h2, of clk] by (simp add: valid_interfaces_lb_AB c)
qed


lemma parse_req_connect:
  "parse_request (\<lambda>u. None) req_connect = Some (''CONNECT'', ''example.com'', 443)"
  by (simp add: parse_request_def req_connect_def CRLF_def split_def strip_def isspace_def
      py_int_def digits_def isdigit_def digit_value_def int_space_def int_max_str_digits_def)



theorem active_connections_zero_witness:
  "active_connections (interfaces (lb_after (handle_client env_tunnel lb_AB)) ! 0) = 0
   \<and> active_connections (interfaces (lb_after (handle_client env_tunnel lb_AB)) ! 1) = 0
   \<and> active_connections (interfaces (run_ops lb_AB [Release 0, Release 0]) ! 0) = 0"
proof -
  have h: "\<forall>x\<in>set (interfaces lb_AB). active_connections x = 0"
    by (simp add: iface_A_def iface_B_def NetworkInterface_init_def)
  note r = active_connections_zero [OF h, of "[Release 0, Release 0]" env_tunnel]
  have "interfaces (lb_after (handle_client env_tunnel lb_AB)) ! 0
          \<in> set (interfaces (lb_after (handle_client env_tunnel lb_AB)))"
    and "interfaces (lb_after (handle_client env_tunnel lb_AB)) ! 1
          \<in> set (interfaces (lb_after (handle_client env_tunnel lb_AB)))"
    and "interfaces (run_ops lb_AB [Release 0, Release 0]) ! 0
          \<in> set (interfaces (run_ops lb_AB [Release 0, Release 0]))"
    by (rule nth_mem, simp)+
  with r show ?thesis by blast
qed

text \<open>
  Claim C6, at a session that tunnels: the client-to-server pump returns 5 (the bytes it
  pumped), the other pump is cancelled after pumping 7, and the interface's \<open>bytes_sent\<close>
  is 0 before and after the session, with both request counts made: \<open>update_stats\<close> was
  called with \<open>bytes_transferred = 0\<close>, not with the pumps' totals.
\<close>

theorem handle_client_ignores_pump_totals:
  "forward (env_c2s_events env_tunnel) = (Returned 5, ''hello'')
   \<and> forward (env_s2c_events env_tunnel) = (TaskCancelled, ''0123456'')
   \<and> outcome (handle_client env_tunnel lb_AB) = Tunnelled
   \<and> remote_out (handle_client env_tunnel lb_AB) = ''hello''
   \<and> bytes_sent (interfaces lb_AB ! 0) = 0
   \<and> bytes_sent (interfaces (lb_after (handle_client env_tunnel lb_AB)) ! 0) = 0
   \<and> total_requests (interfaces (lb_after (handle_client env_tunnel lb_AB)) ! 0) = 2"
proof -
  have p: "parse_request (env_urlparse env_tunnel) (env_decode env_tunnel req_connect)
             = Some (''CONNECT'', ''example.com'', 443)"
    using parse_req_connect by (simp add: env_tunnel_def)
  have h: "env_head env_tunnel = HeadData req_connect" by (simp add: env_tunnel_def)
  have c: "env_connect_ok env_tunnel k i" for k i
    by (simp add: env_tunnel_def)
  have f: "forward (env_c2s_events env_tunnel) = (Returned 5, ''hello'')"
    "forward (env_s2c_events env_tunnel) = (TaskCancelled, ''0123456'')"
    by (simp_all add: env_tunnel_def forward_def)
  have d: "env_drain_ok env_tunnel" by (simp add: env_tunnel_def)
  have b: "bytes_sent iface_A = 0" "total_requests iface_A = 0"
    by (simp_all add: iface_A_def NetworkInterface_init_def)
  show ?thesis
    using f b
    by (simp add: handle_client_def select_lb_AB h p c d Let_def report_stats_def
        release_def update_stats_def mark_request_success_def release_connection_def)
qed

lemma map_update_same:
  "f y = f (xs ! j) \<Longrightarrow> map f (xs[j := y]) = map f xs"
  by (cases "j < length xs") (simp_all add: map_update list_update_same_conv list_update_beyond)

lemma bytes_sent_mark_interface_failed [simp]:
  "map bytes_sent (interfaces (mark_interface_failed lb i t1 t2)) = map bytes_sent (interfaces lb)"
  by (simp add: mark_interface_failed_def Let_def mark_request_failed_def map_update_same)

lemma bytes_sent_release [simp]:
  "map bytes_sent (interfaces (release lb i)) = map bytes_sent (interfaces lb)"
  by (simp add: release_def release_connection_def map_update_same)

lemma bytes_sent_crash [simp]:
  "map bytes_sent (interfaces (crash env lb i)) = map bytes_sent (interfaces lb)"
  by (simp add: crash_def)

lemma bytes_sent_connect_loop:
  "map bytes_sent (interfaces (result_lb (connect_loop env n k lb i)))
     = map bytes_sent (interfaces lb)"
proof (induction n arbitrary: k lb i)
  case 0
  then show ?case by simp
next
  case (Suc n)
  let ?lb1 = "mark_interface_failed lb i (fst (env_fail_clock env k)) (snd (env_fail_clock env k))"
  show ?case
  proof (cases "env_connect_ok env k i")
    case True
    then show ?thesis by simp
  next
    case False
    show ?thesis
    proof (cases "get_best_interface ?lb1 (env_select_clock env (Suc k))")
      case (Inl e)
      with False show ?thesis by (simp add: Let_def)
    next
      case (Inr r)
      obtain j lb2 where r: "r = (j, lb2)" by (cases r)
      with Inr have "interfaces lb2 = interfaces ?lb1"
        using get_best_interface_interfaces by blast
      with Suc.IH [of "Suc k" lb2 j] False Inr r show ?thesis by (simp add: Let_def)
    qed
  qed
qed

lemma bytes_sent_session_end:
  fixes lb1 :: LoadBalancer and j :: nat and r t :: real
  defines "lb2 \<equiv> lb1\<lparr>interfaces := (interfaces lb1)[j := update_stats (interfaces lb1 ! j) 0 r]\<rparr>"
  defines "lb3 \<equiv> report_stats lb2 t"
  shows "map bytes_sent (interfaces
           (lb3\<lparr>interfaces := (interfaces lb3)[j := mark_request_success (interfaces lb3 ! j)]\<rparr>))
         = map bytes_sent (interfaces lb1)"
proof -
  have 2: "map bytes_sent (interfaces lb2) = map bytes_sent (interfaces lb1)"
    by (simp add: lb2_def update_stats_def Let_def map_update_same)
  have 3: "interfaces lb3 = interfaces lb2"
    by (simp add: lb3_def report_stats_def)
  show ?thesis
    using 2 by (simp add: 3 mark_request_success_def map_update_same)
qed

text \<open>No session changes \<open>bytes_sent\<close> of any interface: \<open>bytes_transferred\<close> is 0 whenever
  \<open>update_stats\<close> is called.\<close>

lemma handle_client_bytes_sent:
  "map bytes_sent (interfaces (lb_after (handle_client env lb))) = map bytes_sent (interfaces lb)"
proof (cases "get_best_interface lb (env_select_clock env 0)")
  case (Inl e)
  then show ?thesis by (simp add: handle_client_def)
next
  case (Inr r)
  obtain i lb0 where r: "r = (i, lb0)" by (cases r)
  have sel: "get_best_interface lb (env_select_clock env 0) = Inr (i, lb0)"
    using Inr r by simp
  have e0: "interfaces lb0 = interfaces lb"
    by (rule get_best_interface_interfaces [OF sel])
  show ?thesis
  proof (cases "env_head env")
    case HeadTimeout
    with sel e0 show ?thesis by (simp add: handle_client_def)
  next
    case HeadError
    with sel e0 show ?thesis by (simp add: handle_client_def)
  next
    case (HeadData request_data)
    show ?thesis
    proof (cases "parse_request (env_urlparse env) (env_decode env request_data)")
      case None
      with sel e0 HeadData show ?thesis by (simp add: handle_client_def)
    next
      case (Some q)
      obtain m h p where q: "q = (m, h, p)" by (cases q)
      let ?c = "connect_loop env (length (interfaces lb0)) 0 lb0 i"
      have frame: "map bytes_sent (interfaces (result_lb ?c)) = map bytes_sent (interfaces lb)"
        using bytes_sent_connect_loop [of env "length (interfaces lb0)" 0 lb0 i] e0 by simp
      show ?thesis
      proof (cases ?c)
        case (Connected lb1 j)
        with frame have f1: "map bytes_sent (interfaces lb1) = map bytes_sent (interfaces lb)"
          by simp
        let ?rt = "env_end_time env - env_start_time env"
        let ?lb2 = "lb1\<lparr>interfaces := (interfaces lb1)[j := update_stats (interfaces lb1 ! j) 0 ?rt]\<rparr>"
        let ?lb3 = "report_stats ?lb2 (env_report_time env)"
        let ?lb4 = "?lb3\<lparr>interfaces := (interfaces ?lb3)[j := mark_request_success (interfaces ?lb3 ! j)]\<rparr>"
        have "lb_after (handle_client env lb) = release ?lb4 j"
          using sel HeadData Some q Connected by (simp add: handle_client_def Let_def)
        then show ?thesis
          using bytes_sent_session_end [of lb1 j ?rt "env_report_time env"] f1 by simp
      next
        case (Exhausted lb1 j)
        with frame have f1: "map bytes_sent (interfaces lb1) = map bytes_sent (interfaces lb)"
          by simp
        have "lb_after (handle_client env lb)
                = release (if env_drain_ok env then lb1 else crash env lb1 j) j"
          using sel HeadData Some q Exhausted by (simp add: handle_client_def Let_def)
        with f1 show ?thesis by simp
      next
        case (SelectionRaised lb1 j)
        with frame have f1: "map bytes_sent (interfaces lb1) = map bytes_sent (interfaces lb)"
          by simp
        have "lb_after (handle_client env lb) = release (crash env lb1 j) j"
          using sel HeadData Some q SelectionRaised by (simp add: handle_client_def Let_def)
        with f1 show ?thesis by simp
      qed
    qed
  qed
qed

end
